theory Spec2Isabelle
  imports Main "HOL-Library.Word" "HOL-Library.Multiset" "HOL-Library.Sublist"
begin

section \<open>Task\<close>

text \<open>
  \<^verbatim>\<open>class Task\<close> (threadpool.hpp, lines 34-62) holds \<^verbatim>\<open>std::function<void()> func_\<close> and
  \<^verbatim>\<open>int priority_\<close>. The only closure the pool ever stores in \<^verbatim>\<open>func_\<close> is the lambda
  \<^verbatim>\<open>[task_ptr]() { (*task_ptr)(); }\<close> of \<^verbatim>\<open>submit_priority\<close> (line 309), which owns one
  \<^verbatim>\<open>std::shared_ptr\<close> to a \<^verbatim>\<open>std::packaged_task\<close>. The model identifies the closure with the
  address of that packaged task: \<open>func = Some k\<close> is the lambda holding \<open>task_ptr = k\<close>,
  \<open>func = None\<close> is the empty \<^verbatim>\<open>std::function\<close> of a default-constructed task.
  Priorities are only stored and compared, never computed with, so the 32-bit \<^verbatim>\<open>int\<close> is
  an \<open>int\<close> here.
\<close>

record task =
  func :: "nat option"
  priority :: int

text \<open>\<^verbatim>\<open>Task::operator<\<close> (lines 55-57): reversed, so that the greatest task of a max-heap is
  the one with the numerically lowest priority value.\<close>

definition task_less :: "task \<Rightarrow> task \<Rightarrow> bool" where
  "task_less a b = (priority a > priority b)"

section \<open>TaskQueue\<close>

text \<open>
  \<^verbatim>\<open>TaskQueue\<close> (lines 67-154) wraps a \<^verbatim>\<open>std::priority_queue<Task>\<close> ordered by
  \<^verbatim>\<open>Task::operator<\<close>. Every member function holds \<^verbatim>\<open>mutex_\<close> for its whole body, so each
  is one atomic operation on the container. The C++ standard fixes \<^verbatim>\<open>top()\<close> only up to the
  heap property: it is an element that is not less than any other one. The model keeps the
  elements in a list in insertion order and lets \<open>pq_top\<close> scan it with \<open>task_less\<close>,
  keeping the first greatest element (as \<^verbatim>\<open>std::max_element\<close> does); which of several tasks
  of equal priority is on top is a choice of the model, and no theorem below rests on it.
\<close>

type_synonym priority_queue = "task list"

fun pq_scan :: "task \<Rightarrow> task list \<Rightarrow> task" where
  "pq_scan best [] = best"
| "pq_scan best (x # xs) = pq_scan (if task_less best x then x else best) xs"

definition pq_top :: "priority_queue \<Rightarrow> task" where
  "pq_top q = pq_scan (hd q) (tl q)"

definition pq_pop :: "priority_queue \<Rightarrow> priority_queue" where
  "pq_pop q = remove1 (pq_top q) q"

text \<open>\<^verbatim>\<open>TaskQueue::push\<close> (lines 78-84): no capacity check, no stop check; the notification
  has no effect on the container.\<close>

definition push :: "task \<Rightarrow> priority_queue \<Rightarrow> priority_queue" where
  "push t q = q @ [t]"

text \<open>\<^verbatim>\<open>TaskQueue::try_pop\<close> (lines 89-97): the returned pair is the optional result and the
  queue afterwards.\<close>

definition try_pop :: "priority_queue \<Rightarrow> task option \<times> priority_queue" where
  "try_pop q = (if q = [] then (None, q) else (Some (pq_top q), pq_pop q))"

text \<open>\<^verbatim>\<open>TaskQueue::wait_pop\<close> (lines 102-115): the condition variable lets the caller past
  line 106 only once it finds the queue non-empty or the stop flag set; until then the call
  does not return, which is the value \<open>None\<close> here. How the caller sleeps on the condition
  variable and is woken is part of the pool below.\<close>

definition wait_pop :: "priority_queue \<Rightarrow> bool \<Rightarrow> (task option \<times> priority_queue) option" where
  "wait_pop q stop_flag =
     (if \<not> (q \<noteq> [] \<or> stop_flag) then None
      else if q = [] then Some (None, q)
      else Some (Some (pq_top q), pq_pop q))"

definition queue_size :: "priority_queue \<Rightarrow> nat" where
  "queue_size q = length q"

definition queue_empty :: "priority_queue \<Rightarrow> bool" where
  "queue_empty q = (q = [])"

section \<open>WorkStealingDeque\<close>

text \<open>
  \<^verbatim>\<open>WorkStealingDeque\<close> (lines 159-210) wraps a \<^verbatim>\<open>std::deque<Task>\<close>; the head of the list
  is the deque's front. Each member function holds the deque's mutex for its whole body.
\<close>

type_synonym deque = "task list"

definition push_front :: "task \<Rightarrow> deque \<Rightarrow> deque" where
  "push_front t d = t # d"

definition pop_front :: "deque \<Rightarrow> task option \<times> deque" where
  "pop_front d = (if d = [] then (None, d) else (Some (hd d), tl d))"

definition steal :: "deque \<Rightarrow> task option \<times> deque" where
  "steal d = (if d = [] then (None, d) else (Some (last d), butlast d))"

definition deque_size :: "deque \<Rightarrow> nat" where
  "deque_size d = length d"

definition deque_empty :: "deque \<Rightarrow> bool" where
  "deque_empty d = (d = [])"

text \<open>
  A history of one deque: the operations called on it, in the order in which they took
  the mutex. \<open>deque_run\<close> replays a history from a state that records the deque, the
  tasks handed out by \<open>pop_front\<close> and the tasks handed out by \<open>steal\<close>.
\<close>

datatype deque_op = Push_front task | Pop_front | Steal

record deque_log =
  contents :: deque
  popped :: "task list"
  stolen :: "task list"

fun deque_apply :: "deque_log \<Rightarrow> deque_op \<Rightarrow> deque_log" where
  "deque_apply l (Push_front t) = l\<lparr>contents := push_front t (contents l)\<rparr>"
| "deque_apply l Pop_front =
     (case pop_front (contents l) of
        (Some t, d) \<Rightarrow> l\<lparr>contents := d, popped := popped l @ [t]\<rparr>
      | (None, d) \<Rightarrow> l\<lparr>contents := d\<rparr>)"
| "deque_apply l Steal =
     (case steal (contents l) of
        (Some t, d) \<Rightarrow> l\<lparr>contents := d, stolen := stolen l @ [t]\<rparr>
      | (None, d) \<Rightarrow> l\<lparr>contents := d\<rparr>)"

definition deque_run :: "deque_op list \<Rightarrow> deque_log" where
  "deque_run ops = foldl deque_apply \<lparr>contents = [], popped = [], stolen = []\<rparr> ops"

fun pushed :: "deque_op list \<Rightarrow> task list" where
  "pushed [] = []"
| "pushed (Push_front t # ops) = t # pushed ops"
| "pushed (_ # ops) = pushed ops"

section \<open>Result channel: the packaged task and its future\<close>

text \<open>
  \<^verbatim>\<open>submit_priority\<close> (lines 303-309) allocates one \<^verbatim>\<open>std::packaged_task<ReturnType()>\<close> for
  each task, takes its \<^verbatim>\<open>std::future\<close> and moves the only lasting
  \<^verbatim>\<open>std::shared_ptr\<close> to it into the task's closure. Both are standard library classes; the
  model follows the C++17 standard:
  \<^item> \<^verbatim>\<open>packaged_task::operator()\<close> calls the stored callable; a returned value is stored in
    the shared state, an exception thrown by the callable is caught and stored in the
    shared state; either makes the state ready. A second invocation throws
    \<^verbatim>\<open>future_error(promise_already_satisfied)\<close> to the caller.
  \<^item> \<^verbatim>\<open>~packaged_task\<close> abandons the shared state: a state that is not ready receives a
    \<^verbatim>\<open>future_error(broken_promise)\<close> and becomes ready.
  \<^item> \<^verbatim>\<open>future::get\<close> blocks until the state is ready, then returns the value or rethrows
    the stored exception.
  The stored callable is the user's function bound to its arguments; all the pool can
  observe of it is whether it returns or throws, which is its \<open>outcome\<close>.
\<close>

datatype outcome = Returns int | Throws string

datatype failure = Task_failure string | Broken_promise

datatype shared_state = Pending | Ready_value int | Ready_failure failure

record packaged_task =
  stored :: outcome
  state :: shared_state

type_synonym heap = "packaged_task list"

datatype future_error = Promise_already_satisfied | No_state

definition resolve :: "outcome \<Rightarrow> shared_state" where
  "resolve f = (case f of Returns v \<Rightarrow> Ready_value v | Throws e \<Rightarrow> Ready_failure (Task_failure e))"

definition invoke :: "nat \<Rightarrow> heap \<Rightarrow> future_error + heap" where
  "invoke k h =
     (if k < length h then
        (case state (h ! k) of
           Pending \<Rightarrow> Inr (h[k := (h ! k)\<lparr>state := resolve (stored (h ! k))\<rparr>])
         | Ready_value v \<Rightarrow> Inl Promise_already_satisfied
         | Ready_failure e \<Rightarrow> Inl Promise_already_satisfied)
      else Inl No_state)"

definition abandon :: "nat \<Rightarrow> heap \<Rightarrow> heap" where
  "abandon k h =
     (if k < length h \<and> state (h ! k) = Pending
      then h[k := (h ! k)\<lparr>state := Ready_failure Broken_promise\<rparr>]
      else h)"

text \<open>\<^verbatim>\<open>Task::operator()\<close> (lines 44-48) calls \<^verbatim>\<open>func_\<close> if it is not empty; the closure
  invokes the packaged task. An exception leaves through \<open>Inl\<close>.\<close>

definition run_task :: "task \<Rightarrow> heap \<Rightarrow> future_error + heap" where
  "run_task t h = (case func t of None \<Rightarrow> Inr h | Some k \<Rightarrow> invoke k h)"

text \<open>Destroying a \<^verbatim>\<open>Task\<close> that still holds its closure releases the last owner of the
  packaged task, whose destructor abandons the shared state.\<close>

definition destroy_task :: "task \<Rightarrow> heap \<Rightarrow> heap" where
  "destroy_task t h = (case func t of None \<Rightarrow> h | Some k \<Rightarrow> abandon k h)"

text \<open>\<^verbatim>\<open>std::future::get\<close> on the future of packaged task \<open>k\<close>: \<open>None\<close> while it blocks,
  \<open>Inr\<close> the value, \<open>Inl\<close> the rethrown exception.\<close>

definition future_get :: "nat \<Rightarrow> heap \<Rightarrow> (failure + int) option" where
  "future_get k h =
     (case state (h ! k) of
        Pending \<Rightarrow> None
      | Ready_value v \<Rightarrow> Some (Inr v)
      | Ready_failure e \<Rightarrow> Some (Inl e))"

text \<open>\<^verbatim>\<open>TaskQueue::clear\<close> (lines 143-148): \<^verbatim>\<open>queue_.pop()\<close> removes the top task and
  destroys it.\<close>

function clear :: "priority_queue \<Rightarrow> heap \<Rightarrow> priority_queue \<times> heap" where
  "clear q h = (if q \<noteq> [] then clear (pq_pop q) (destroy_task (pq_top q) h) else (q, h))"
  by pat_completeness auto

termination
proof (relation "measure (\<lambda>(q, h). length q)")
  show "wf (measure (\<lambda>(q, h). length q))"
    by simp
next
  fix q :: priority_queue and h :: heap
  assume ne: "q \<noteq> []"
  have scan: "pq_scan b xs \<in> set (b # xs)" for b xs
    by (induction xs arbitrary: b) auto
  from ne obtain y ys where q: "q = y # ys"
    by (cases q) auto
  have "pq_top q \<in> set q"
    using scan [of y ys] by (simp add: pq_top_def q)
  then have "length (pq_pop q) < length q"
    using ne by (simp add: pq_pop_def length_remove1)
  then show "((pq_pop q, destroy_task (pq_top q) h), (q, h)) \<in> measure (\<lambda>(q, h). length q)"
    by simp
qed

declare clear.simps [simp del]

section \<open>PoolStats and ThreadPool\<close>

text \<open>
  \<^verbatim>\<open>struct PoolStats\<close> (lines 215-220): three plain \<^verbatim>\<open>size_t\<close> counters and a
  \<^verbatim>\<open>std::chrono::nanoseconds\<close>, whose representation is a 64-bit count. None of the four
  is a \<^verbatim>\<open>std::atomic\<close>. \<^verbatim>\<open>size_t\<close> is 64 bits wide on the platforms the library builds for.
\<close>

record pool_stats =
  total_tasks_submitted :: "64 word"
  total_tasks_completed :: "64 word"
  total_tasks_stolen :: "64 word"
  total_execution_time :: "64 word"

text \<open>
  A worker thread is represented by the place of \<^verbatim>\<open>worker_loop\<close> (lines 382-422) and
  \<^verbatim>\<open>try_steal\<close> (lines 427-439) it has reached, together with its local variables. There is
  one place before each access to state that other threads share. An increment of a plain
  \<^verbatim>\<open>PoolStats\<close> field is a read followed by a write, hence two places; the increments of
  the atomic \<^verbatim>\<open>active_tasks_\<close> are single accesses. \<^verbatim>\<open>cv_.wait(lock, pred)\<close> of line 104 is
  \<^verbatim>\<open>while (!pred()) wait(lock)\<close>: the worker tests the predicate with the queue mutex held
  and, having found it false, still holds the mutex until \<^verbatim>\<open>wait(lock)\<close> releases it and
  blocks the thread in one step.
\<close>

datatype wstate =
    At_pop_front                         \<comment> \<open>line 387\<close>
  | At_try_pop                           \<comment> \<open>line 391\<close>
  | At_steal nat                         \<comment> \<open>lines 428-433, with the loop counter \<open>i\<close>\<close>
  | At_stolen_load task                  \<comment> \<open>line 434, read\<close>
  | At_stolen_store task "64 word"       \<comment> \<open>line 434, write\<close>
  | At_wait_pop                          \<comment> \<open>line 401: lines 103-105, lock and test\<close>
  | At_wait_block                        \<comment> \<open>line 104, test failed, mutex held, about to block\<close>
  | At_wait_asleep                       \<comment> \<open>line 104, blocked on \<^verbatim>\<open>cv_\<close>\<close>
  | At_stop_check                        \<comment> \<open>lines 404-409\<close>
  | At_inc_active task                   \<comment> \<open>line 412\<close>
  | At_start task                        \<comment> \<open>line 413\<close>
  | At_invoke task "64 word"             \<comment> \<open>line 415, with \<open>start\<close>\<close>
  | At_end task "64 word"                \<comment> \<open>line 417, with \<open>start\<close>\<close>
  | At_time_load task "64 word"          \<comment> \<open>line 418, read, with \<open>end - start\<close>\<close>
  | At_time_store task "64 word" "64 word"  \<comment> \<open>line 418, write\<close>
  | At_completed_load task               \<comment> \<open>line 419, read\<close>
  | At_completed_store task "64 word"    \<comment> \<open>line 419, write\<close>
  | At_dec_active task                   \<comment> \<open>line 420 and the end of the loop body\<close>
  | Exited                               \<comment> \<open>after the \<^verbatim>\<open>break\<close> of line 406\<close>

text \<open>
  \<^verbatim>\<open>class ThreadPool\<close> (lines 232-451). \<open>cv_waiters\<close> is the state of the condition
  variable \<^verbatim>\<open>cv_\<close> of the global queue (line 152): the worker threads blocked on it, the
  latest first. \<open>heap\<close> holds the packaged tasks allocated by
  \<^verbatim>\<open>submit_priority\<close>, \<open>clock\<close> is the reading of \<^verbatim>\<open>high_resolution_clock\<close>, and
  \<open>terminated\<close> records that an exception has left a worker thread, upon which the C++
  runtime calls \<^verbatim>\<open>std::terminate\<close>. The worker count and the indices into
  \<^verbatim>\<open>local_queues_\<close> are \<open>nat\<close>: they are bounded by the size of a vector of pointers, so
  that \<^verbatim>\<open>worker_id + i + 1\<close> of line 429 cannot wrap around.
\<close>

record thread_pool =
  num_threads :: nat
  stop :: bool
  active_tasks :: "64 word"
  global_queue :: priority_queue
  cv_waiters :: "nat list"
  local_queues :: "deque list"
  workers :: "wstate list"
  stats :: pool_stats
  heap :: heap
  clock :: "64 word"
  terminated :: bool

text \<open>The constructor (lines 238-253): the worker count is clamped to at least 1, and every
  worker thread starts at the top of its loop.\<close>

definition ThreadPool :: "nat \<Rightarrow> thread_pool" where
  "ThreadPool n =
     (let k = (if n > 0 then n else 1) in
      \<lparr>num_threads = k, stop = False, active_tasks = 0, global_queue = [], cv_waiters = [],
       local_queues = replicate k [], workers = replicate k At_pop_front,
       stats = \<lparr>total_tasks_submitted = 0, total_tasks_completed = 0,
                total_tasks_stolen = 0, total_execution_time = 0\<rparr>,
       heap = [], clock = 0, terminated = False\<rparr>)"

text \<open>
  \<^verbatim>\<open>cv_.notify_all()\<close> unblocks every thread that is blocked on the condition variable at
  the time of the call, \<^verbatim>\<open>cv_.notify_one()\<close> one of them, if there is any. A thread that is
  not yet blocked is not affected, and the notification is not kept for later. Which thread
  \<^verbatim>\<open>notify_one\<close> unblocks is unspecified; here it is the one that has waited longest.
\<close>

definition notify_all :: "nat list \<Rightarrow> nat list" where
  "notify_all waiters = []"

definition notify_one :: "nat list \<Rightarrow> nat list" where
  "notify_one waiters = butlast waiters"

datatype error = Runtime_error string

text \<open>
  \<^verbatim>\<open>submit_priority\<close> (lines 293-315). The result is the thrown \<^verbatim>\<open>std::runtime_error\<close>, or
  the future (the address of its shared state) and the pool afterwards. The call of
  \<^verbatim>\<open>TaskQueue::push\<close> in line 310 pushes the task under the queue mutex and then notifies
  one waiting thread (line 83).
\<close>

definition submit_priority :: "int \<Rightarrow> outcome \<Rightarrow> thread_pool \<Rightarrow> error + (nat \<times> thread_pool)" where
  "submit_priority prio f p =
     (if stop p then Inl (Runtime_error ''Cannot submit to stopped thread pool'')
      else
        let task_ptr = length (heap p);
            p1 = p\<lparr>heap := heap p @ [\<lparr>stored = f, state = Pending\<rparr>]\<rparr>;
            result = task_ptr;
            t = \<lparr>func = Some task_ptr, priority = prio\<rparr>;
            p2 = p1\<lparr>global_queue := push t (global_queue p1),
                    cv_waiters := notify_one (cv_waiters p1)\<rparr>;
            p3 = p2\<lparr>stats := (stats p2)\<lparr>total_tasks_submitted :=
                                            total_tasks_submitted (stats p2) + 1\<rparr>\<rparr>
        in Inr (result, p3))"

text \<open>\<^verbatim>\<open>submit\<close> (lines 279-284).\<close>

definition submit :: "outcome \<Rightarrow> thread_pool \<Rightarrow> error + (nat \<times> thread_pool)" where
  "submit f p = submit_priority 0 f p"

definition pool_size :: "thread_pool \<Rightarrow> nat" where
  "pool_size p = num_threads p"

text \<open>\<^verbatim>\<open>pending\<close> (lines 327-333).\<close>

definition pending :: "thread_pool \<Rightarrow> nat" where
  "pending p =
     foldl (\<lambda>count q. count + deque_size q) (queue_size (global_queue p)) (local_queues p)"

definition active :: "thread_pool \<Rightarrow> 64 word" where
  "active p = active_tasks p"

text \<open>\<^verbatim>\<open>wait\<close> (lines 345-349) sleeps as long as the test of line 346 holds and returns
  when it finds it false.\<close>

definition wait_test :: "thread_pool \<Rightarrow> bool" where
  "wait_test p = (pending p > 0 \<or> active p > 0)"

text \<open>\<^verbatim>\<open>shutdown\<close> (lines 354-357): the store of the flag and the notification of all threads
  blocked on the global queue. Neither takes the queue mutex.\<close>

definition shutdown :: "thread_pool \<Rightarrow> thread_pool" where
  "shutdown p = (let p1 = p\<lparr>stop := True\<rparr> in p1\<lparr>cv_waiters := notify_all (cv_waiters p1)\<rparr>)"

text \<open>The loop of lines 365-367 over one deque: every task popped is a temporary that is
  destroyed at once.\<close>

function drain :: "deque \<Rightarrow> heap \<Rightarrow> deque \<times> heap" where
  "drain d h =
     (case pop_front d of
        (Some t, d') \<Rightarrow> drain d' (destroy_task t h)
      | (None, d') \<Rightarrow> (d', h))"
  by pat_completeness auto
termination
  by (relation "measure (\<lambda>(d, h). length d)")
     (auto simp: pop_front_def split: if_splits)

declare drain.simps [simp del]

fun drain_all :: "deque list \<Rightarrow> heap \<Rightarrow> deque list \<times> heap" where
  "drain_all [] h = ([], h)"
| "drain_all (d # ds) h =
     (case drain d h of (d', h') \<Rightarrow>
        (case drain_all ds h' of (ds', h'') \<Rightarrow> (d' # ds', h'')))"

text \<open>\<^verbatim>\<open>shutdown_now\<close> (lines 362-369).\<close>

definition shutdown_now :: "thread_pool \<Rightarrow> thread_pool" where
  "shutdown_now p =
     (let p1 = p\<lparr>stop := True\<rparr> in
      case clear (global_queue p1) (heap p1) of (q, h) \<Rightarrow>
        let p2 = p1\<lparr>global_queue := q, heap := h\<rparr> in
        case drain_all (local_queues p2) (heap p2) of (ds, h') \<Rightarrow>
          let p3 = p2\<lparr>local_queues := ds, heap := h'\<rparr> in
          p3\<lparr>cv_waiters := notify_all (cv_waiters p3)\<rparr>)"

text \<open>The destructor (lines 258-265) calls \<^verbatim>\<open>shutdown\<close> and then joins every worker thread.
  A join blocks the destructor until that thread has left \<^verbatim>\<open>worker_loop\<close>; \<open>joins_return\<close>
  holds of the pools in which none of the joins blocks.\<close>

definition joins_return :: "thread_pool \<Rightarrow> bool" where
  "joins_return p = list_all (\<lambda>ws. ws = Exited) (workers p)"

section \<open>The worker\<close>

text \<open>The queue operations as \<^verbatim>\<open>worker_loop\<close> and \<^verbatim>\<open>try_steal\<close> call them, on the queues
  of the pool.\<close>

definition local_pop_front :: "nat \<Rightarrow> thread_pool \<Rightarrow> task option \<times> thread_pool" where
  "local_pop_front w p =
     (case pop_front (local_queues p ! w) of
        (r, d) \<Rightarrow> (r, p\<lparr>local_queues := (local_queues p)[w := d]\<rparr>))"

definition global_try_pop :: "thread_pool \<Rightarrow> task option \<times> thread_pool" where
  "global_try_pop p =
     (case try_pop (global_queue p) of (r, q) \<Rightarrow> (r, p\<lparr>global_queue := q\<rparr>))"

definition local_steal :: "nat \<Rightarrow> thread_pool \<Rightarrow> task option \<times> thread_pool" where
  "local_steal victim p =
     (case steal (local_queues p ! victim) of
        (r, d) \<Rightarrow> (r, p\<lparr>local_queues := (local_queues p)[victim := d]\<rparr>))"

definition global_wait_pop :: "thread_pool \<Rightarrow> (task option \<times> thread_pool) option" where
  "global_wait_pop p =
     (case wait_pop (global_queue p) (stop p) of
        None \<Rightarrow> None
      | Some (r, q) \<Rightarrow> Some (r, p\<lparr>global_queue := q\<rparr>))"

definition count_stolen :: "thread_pool \<Rightarrow> thread_pool" where
  "count_stolen p = p\<lparr>stats := (stats p)\<lparr>total_tasks_stolen := total_tasks_stolen (stats p) + 1\<rparr>\<rparr>"

subsection \<open>One thread running alone\<close>

text \<open>\<^verbatim>\<open>try_steal\<close> (lines 427-439): the loop from counter \<open>i\<close> on.\<close>

function try_steal_loop :: "nat \<Rightarrow> nat \<Rightarrow> thread_pool \<Rightarrow> task option \<times> thread_pool" where
  "try_steal_loop i worker_id p =
     (if i < num_threads p then
        let victim = (worker_id + i + 1) mod num_threads p in
        if victim = worker_id then try_steal_loop (i + 1) worker_id p
        else
          (case local_steal victim p of
             (Some t, p') \<Rightarrow> (Some t, count_stolen p')
           | (None, p') \<Rightarrow> try_steal_loop (i + 1) worker_id p')
      else (None, p))"
  by pat_completeness auto
termination
  by (relation "measure (\<lambda>(i, worker_id, p). num_threads p - i)")
     (auto simp: local_steal_def split: prod.splits)

declare try_steal_loop.simps [simp del]

definition try_steal :: "nat \<Rightarrow> thread_pool \<Rightarrow> task option \<times> thread_pool" where
  "try_steal worker_id p = try_steal_loop 0 worker_id p"

text \<open>
  Lines 384-402 of \<^verbatim>\<open>worker_loop\<close>: the four attempts of one iteration, with no other
  thread running in between. \<open>None\<close> is a worker that stays blocked in \<^verbatim>\<open>wait_pop\<close>.
\<close>

definition fetch :: "nat \<Rightarrow> thread_pool \<Rightarrow> (task option \<times> thread_pool) option" where
  "fetch worker_id p =
     (case local_pop_front worker_id p of
        (Some t, p1) \<Rightarrow> Some (Some t, p1)
      | (None, p1) \<Rightarrow>
          (case global_try_pop p1 of
             (Some t, p2) \<Rightarrow> Some (Some t, p2)
           | (None, p2) \<Rightarrow>
               (case try_steal worker_id p2 of
                  (Some t, p3) \<Rightarrow> Some (Some t, p3)
                | (None, p3) \<Rightarrow> global_wait_pop p3)))"

text \<open>
  Lines 411-420 and the end of the loop body, where the local \<^verbatim>\<open>task\<close> is destroyed. The
  body runs for \<open>d\<close> clock ticks. \<open>None\<close> is an exception leaving the worker thread.
\<close>

definition execute :: "task \<Rightarrow> 64 word \<Rightarrow> thread_pool \<Rightarrow> thread_pool option" where
  "execute t d p =
     (let p1 = p\<lparr>active_tasks := active_tasks p + 1\<rparr>;
          t_start = clock p1
      in case run_task t (heap p1) of
           Inl e \<Rightarrow> None
         | Inr h \<Rightarrow>
             let p2 = p1\<lparr>heap := h, clock := clock p1 + d\<rparr>;
                 t_end = clock p2;
                 p3 = p2\<lparr>stats := (stats p2)\<lparr>total_execution_time :=
                                                total_execution_time (stats p2) + (t_end - t_start)\<rparr>\<rparr>;
                 p4 = p3\<lparr>stats := (stats p3)\<lparr>total_tasks_completed :=
                                                total_tasks_completed (stats p3) + 1\<rparr>\<rparr>;
                 p5 = p4\<lparr>active_tasks := active_tasks p4 - 1\<rparr>
             in Some (p5\<lparr>heap := destroy_task t (heap p5)\<rparr>))"

text \<open>One iteration of the \<^verbatim>\<open>while (true)\<close> of \<^verbatim>\<open>worker_loop\<close>: \<open>Continue\<close> goes on to the
  next iteration, \<open>Break\<close> leaves the loop and ends the thread.\<close>

datatype iteration = Continue thread_pool | Break thread_pool | Blocks | Terminate

definition worker_iteration :: "nat \<Rightarrow> 64 word \<Rightarrow> thread_pool \<Rightarrow> iteration" where
  "worker_iteration worker_id d p =
     (case fetch worker_id p of
        None \<Rightarrow> Blocks
      | Some (None, p') \<Rightarrow> if stop p' then Break p' else Continue p'
      | Some (Some t, p') \<Rightarrow>
          (case execute t d p' of None \<Rightarrow> Terminate | Some p'' \<Rightarrow> Continue p''))"

subsection \<open>Threads running concurrently\<close>

text \<open>
  \<open>action\<close> is the next access of a worker at a given place: the place it moves to and
  the pool afterwards, or \<open>None\<close> when the worker is blocked or has ended. A worker that
  finds the predicate of line 105 false joins the threads blocked on the condition
  variable in its next step; from then on it can only move once a notification (or a
  spurious wake-up) has taken it out of them, and it then locks the mutex and tests the
  predicate again.
\<close>

fun action :: "wstate \<Rightarrow> nat \<Rightarrow> thread_pool \<Rightarrow> (wstate \<times> thread_pool) option" where
  "action At_pop_front w p =
     (case local_pop_front w p of
        (Some t, p') \<Rightarrow> Some (At_inc_active t, p')
      | (None, p') \<Rightarrow> Some (At_try_pop, p'))"
| "action At_try_pop w p =
     (case global_try_pop p of
        (Some t, p') \<Rightarrow> Some (At_inc_active t, p')
      | (None, p') \<Rightarrow> Some (At_steal 0, p'))"
| "action (At_steal i) w p =
     (if i < num_threads p then
        let victim = (w + i + 1) mod num_threads p in
        if victim = w then Some (At_steal (i + 1), p)
        else
          (case local_steal victim p of
             (Some t, p') \<Rightarrow> Some (At_stolen_load t, p')
           | (None, p') \<Rightarrow> Some (At_steal (i + 1), p'))
      else Some (At_wait_pop, p))"
| "action (At_stolen_load t) w p = Some (At_stolen_store t (total_tasks_stolen (stats p)), p)"
| "action (At_stolen_store t v) w p =
     Some (At_inc_active t, p\<lparr>stats := (stats p)\<lparr>total_tasks_stolen := v + 1\<rparr>\<rparr>)"
| "action At_wait_pop w p =
     (case global_wait_pop p of
        None \<Rightarrow> Some (At_wait_block, p)
      | Some (Some t, p') \<Rightarrow> Some (At_inc_active t, p')
      | Some (None, p') \<Rightarrow> Some (At_stop_check, p'))"
| "action At_wait_block w p = Some (At_wait_asleep, p\<lparr>cv_waiters := w # cv_waiters p\<rparr>)"
| "action At_wait_asleep w p = (if w \<in> set (cv_waiters p) then None else Some (At_wait_pop, p))"
| "action At_stop_check w p = Some (if stop p then Exited else At_pop_front, p)"
| "action (At_inc_active t) w p = Some (At_start t, p\<lparr>active_tasks := active_tasks p + 1\<rparr>)"
| "action (At_start t) w p = Some (At_invoke t (clock p), p)"
| "action (At_invoke t start) w p =
     (case run_task t (heap p) of
        Inl e \<Rightarrow> Some (At_invoke t start, p\<lparr>terminated := True\<rparr>)
      | Inr h \<Rightarrow> Some (At_end t start, p\<lparr>heap := h\<rparr>))"
| "action (At_end t start) w p = Some (At_time_load t (clock p - start), p)"
| "action (At_time_load t d) w p = Some (At_time_store t d (total_execution_time (stats p)), p)"
| "action (At_time_store t d v) w p =
     Some (At_completed_load t, p\<lparr>stats := (stats p)\<lparr>total_execution_time := v + d\<rparr>\<rparr>)"
| "action (At_completed_load t) w p =
     Some (At_completed_store t (total_tasks_completed (stats p)), p)"
| "action (At_completed_store t v) w p =
     Some (At_dec_active t, p\<lparr>stats := (stats p)\<lparr>total_tasks_completed := v + 1\<rparr>\<rparr>)"
| "action (At_dec_active t) w p =
     Some (At_pop_front, p\<lparr>active_tasks := active_tasks p - 1, heap := destroy_task t (heap p)\<rparr>)"
| "action Exited w p = None"

text \<open>
  An event is one step of one thread: a call of the public interface by a client thread
  (each taken as a whole), a tick of the clock, the next access of worker \<open>w\<close>, or a
  spurious wake-up of worker \<open>w\<close>, which the C++ standard permits at any time and never
  promises. A schedule is a list of events; \<open>run\<close> replays it and is \<open>None\<close> when it asks
  a thread for a step that thread cannot take. Nothing happens after \<^verbatim>\<open>std::terminate\<close>.
\<close>

datatype event =
  Submit int outcome | Shutdown | Shutdown_now | Tick "64 word" | Work nat | Wake nat

definition worker_step :: "nat \<Rightarrow> thread_pool \<Rightarrow> thread_pool option" where
  "worker_step w p =
     (if w < length (workers p) then
        (case action (workers p ! w) w p of
           None \<Rightarrow> None
         | Some (pc, p') \<Rightarrow> Some (p'\<lparr>workers := (workers p')[w := pc]\<rparr>))
      else None)"

fun client_step :: "event \<Rightarrow> thread_pool \<Rightarrow> thread_pool option" where
  "client_step (Submit prio f) p =
     (case submit_priority prio f p of Inl e \<Rightarrow> Some p | Inr (result, p') \<Rightarrow> Some p')"
| "client_step Shutdown p = Some (shutdown p)"
| "client_step Shutdown_now p = Some (shutdown_now p)"
| "client_step (Tick d) p = Some (p\<lparr>clock := clock p + d\<rparr>)"
| "client_step (Work w) p = worker_step w p"
| "client_step (Wake w) p = Some (p\<lparr>cv_waiters := removeAll w (cv_waiters p)\<rparr>)"

text \<open>
  The mutex of the global queue. A worker holds it across two steps only between a failed
  test of the predicate and the moment it blocks; every other use of the queue locks and
  unlocks within one step. While a worker holds it, no thread can take a step that locks
  it: an accepted submission (line 80), \<^verbatim>\<open>shutdown_now\<close> (line 144), \<^verbatim>\<open>try_pop\<close> (line 90) and
  the test of \<^verbatim>\<open>wait_pop\<close> (line 103). \<^verbatim>\<open>shutdown\<close> does not lock it.
\<close>

fun holds_queue_mutex :: "wstate \<Rightarrow> bool" where
  "holds_queue_mutex At_wait_block = True"
| "holds_queue_mutex ws = False"

definition queue_mutex_free :: "thread_pool \<Rightarrow> bool" where
  "queue_mutex_free p = list_all (\<lambda>ws. \<not> holds_queue_mutex ws) (workers p)"

fun locks_queue :: "event \<Rightarrow> thread_pool \<Rightarrow> bool" where
  "locks_queue (Submit prio f) p = (\<not> stop p)"
| "locks_queue Shutdown_now p = True"
| "locks_queue (Work w) p =
     (w < length (workers p) \<and> (workers p ! w = At_try_pop \<or> workers p ! w = At_wait_pop))"
| "locks_queue e p = False"

definition step :: "event \<Rightarrow> thread_pool \<Rightarrow> thread_pool option" where
  "step e p =
     (if terminated p then None
      else if locks_queue e p \<and> \<not> queue_mutex_free p then None
      else client_step e p)"

fun run :: "event list \<Rightarrow> thread_pool \<Rightarrow> thread_pool option" where
  "run [] p = Some p"
| "run (e # es) p = (case step e p of None \<Rightarrow> None | Some p' \<Rightarrow> run es p')"

section \<open>Definitions used to state the properties\<close>

text \<open>The heap after the tasks \<open>ts\<close> have been destroyed without having run: every shared
  state that is still pending and belongs to one of them holds a broken promise, and all
  else is as before.\<close>

definition discard :: "task list \<Rightarrow> heap \<Rightarrow> heap" where
  "discard ts h =
     map (\<lambda>k. if Some k \<in> func ` set ts \<and> state (h ! k) = Pending
              then (h ! k)\<lparr>state := Ready_failure Broken_promise\<rparr> else h ! k)
         [0..<length h]"

text \<open>
  The scheduling order in the words of the specification. The victims of a worker are
  all other workers, in round-robin order starting just after the worker itself.
\<close>

definition victims :: "nat \<Rightarrow> nat \<Rightarrow> nat list" where
  "victims worker_id n = map (\<lambda>j. (worker_id + j) mod n) [1..<n]"

text \<open>
  What one iteration of a worker running alone obtains: (1) the front of its own deque;
  else (2) the task the global queue hands out; else (3) the back of the deque of the
  first victim that has a task, which counts as one stolen task; else (4) it waits on the
  global queue, which is empty at that point, so that it leaves with nothing when the
  stop flag is set and stays blocked (\<open>None\<close>) otherwise.
\<close>

definition spec_fetch :: "nat \<Rightarrow> thread_pool \<Rightarrow> (task option \<times> thread_pool) option" where
  "spec_fetch worker_id p =
     (if local_queues p ! worker_id \<noteq> [] then
        Some (Some (hd (local_queues p ! worker_id)),
              p\<lparr>local_queues := (local_queues p)[worker_id := tl (local_queues p ! worker_id)]\<rparr>)
      else if global_queue p \<noteq> [] then
        Some (Some (pq_top (global_queue p)), p\<lparr>global_queue := pq_pop (global_queue p)\<rparr>)
      else
        (case find (\<lambda>v. local_queues p ! v \<noteq> []) (victims worker_id (num_threads p)) of
           Some v \<Rightarrow>
             Some (Some (last (local_queues p ! v)),
                   count_stolen (p\<lparr>local_queues := (local_queues p)[v := butlast (local_queues p ! v)]\<rparr>))
         | None \<Rightarrow> if stop p then Some (None, p) else None))"

text \<open>
  The invariant behind the emptiness of the local deques: the pool has one deque and one
  thread per worker, every deque is empty, nothing has been counted as stolen, and no
  worker stands between a successful steal and its count (lines 434-435).
\<close>

fun counting_steal :: "wstate \<Rightarrow> bool" where
  "counting_steal (At_stolen_load t) = True"
| "counting_steal (At_stolen_store t v) = True"
| "counting_steal ws = False"

definition no_local_work :: "thread_pool \<Rightarrow> bool" where
  "no_local_work p =
     (0 < num_threads p \<and> length (local_queues p) = num_threads p \<and>
      length (workers p) = num_threads p \<and>
      list_all (\<lambda>d. d = []) (local_queues p) \<and>
      total_tasks_stolen (stats p) = 0 \<and>
      list_all (\<lambda>ws. \<not> counting_steal ws) (workers p))"

text \<open>
  Ownership of the packaged tasks. A task is waiting while it stands in a queue or is held
  by a worker that has not yet called it (before line 415 has returned); it is done once
  its worker has called it. The invariant: no two waiting tasks share a packaged task,
  the shared state of every waiting task is pending, that of every done task is ready, and
  no exception has left a worker thread.
\<close>

fun unstarted :: "wstate \<Rightarrow> task list" where
  "unstarted (At_stolen_load t) = [t]"
| "unstarted (At_stolen_store t v) = [t]"
| "unstarted (At_inc_active t) = [t]"
| "unstarted (At_start t) = [t]"
| "unstarted (At_invoke t start) = [t]"
| "unstarted ws = []"

fun started :: "wstate \<Rightarrow> task list" where
  "started (At_end t start) = [t]"
| "started (At_time_load t d) = [t]"
| "started (At_time_store t d v) = [t]"
| "started (At_completed_load t) = [t]"
| "started (At_completed_store t v) = [t]"
| "started (At_dec_active t) = [t]"
| "started ws = []"

definition waiting_tasks :: "thread_pool \<Rightarrow> task list" where
  "waiting_tasks p =
     global_queue p @ concat (local_queues p) @ concat (map unstarted (workers p))"

definition pending_task :: "heap \<Rightarrow> task \<Rightarrow> bool" where
  "pending_task h t =
     (case func t of None \<Rightarrow> False | Some k \<Rightarrow> k < length h \<and> state (h ! k) = Pending)"

definition ready_task :: "heap \<Rightarrow> task \<Rightarrow> bool" where
  "ready_task h t =
     (case func t of None \<Rightarrow> False | Some k \<Rightarrow> k < length h \<and> state (h ! k) \<noteq> Pending)"

definition owned :: "thread_pool \<Rightarrow> bool" where
  "owned p =
     (distinct (map func (waiting_tasks p)) \<and>
      list_all (pending_task (heap p)) (waiting_tasks p) \<and>
      list_all (\<lambda>ws. list_all (ready_task (heap p)) (started ws)) (workers p) \<and>
      \<not> terminated p)"

text \<open>The pool in which worker \<open>w\<close> stands at a given place.\<close>

definition placed :: "nat \<Rightarrow> wstate \<Rightarrow> thread_pool \<Rightarrow> thread_pool" where
  "placed w pc p = p\<lparr>workers := (workers p)[w := pc]\<rparr>"

text \<open>No thread other than worker \<open>w\<close> holds the mutex of the global queue.\<close>

definition others_free :: "nat \<Rightarrow> thread_pool \<Rightarrow> bool" where
  "others_free w p = (\<forall>v < length (workers p). v \<noteq> w \<longrightarrow> \<not> holds_queue_mutex (workers p ! v))"

section \<open>The Global Priority Queue returns a task of lowest priority value\<close>

lemma pq_scan_mem: "pq_scan b xs \<in> set (b # xs)"
  by (induction xs arbitrary: b) auto

lemma pq_scan_le_start: "priority (pq_scan b xs) \<le> priority b"
proof (induction xs arbitrary: b)
  case Nil
  show ?case by simp
next
  case (Cons x xs)
  have "priority (pq_scan (if task_less b x then x else b) xs)
          \<le> priority (if task_less b x then x else b)"
    by (rule Cons.IH)
  also have "\<dots> \<le> priority b"
    by (simp add: task_less_def)
  finally show ?case by simp
qed

lemma pq_scan_le_rest: "x \<in> set xs \<Longrightarrow> priority (pq_scan b xs) \<le> priority x"
proof (induction xs arbitrary: b)
  case Nil
  then show ?case by simp
next
  case (Cons y ys)
  let ?b' = "if task_less b y then y else b"
  show ?case
  proof (cases "x = y")
    case True
    have "priority (pq_scan ?b' ys) \<le> priority ?b'"
      by (rule pq_scan_le_start)
    also have "\<dots> \<le> priority y"
      by (simp add: task_less_def)
    finally show ?thesis using True by simp
  next
    case False
    with Cons.prems have "x \<in> set ys" by simp
    then have "priority (pq_scan ?b' ys) \<le> priority x"
      by (rule Cons.IH)
    then show ?thesis by simp
  qed
qed

lemma pq_top_mem: "q \<noteq> [] \<Longrightarrow> pq_top q \<in> set q"
  using pq_scan_mem [of "hd q" "tl q"] by (cases q) (auto simp: pq_top_def)

lemma pq_top_least: "x \<in> set q \<Longrightarrow> priority (pq_top q) \<le> priority x"
proof (cases q)
  case Nil
  assume "x \<in> set q"
  with Nil show ?thesis by simp
next
  case (Cons y ys)
  assume "x \<in> set q"
  with Cons have "x = y \<or> x \<in> set ys" by simp
  then show ?thesis
    using pq_scan_le_start [of y ys] pq_scan_le_rest [of x ys y]
    by (auto simp: pq_top_def Cons)
qed

lemma mset_pq_pop: "q \<noteq> [] \<Longrightarrow> mset (pq_pop q) = mset q - {#pq_top q#}"
  by (simp add: pq_pop_def)

text \<open>
  C2. \<open>push\<close> accepts every task: the queue afterwards holds exactly the old tasks and the
  new one. On a non-empty queue \<open>try_pop\<close>, and \<open>wait_pop\<close> whatever the stop flag, return
  a queued task whose priority value is the least of all queued ones, and remove exactly
  that task. Nothing is stated about which of several tasks of equal priority it is.
\<close>

theorem global_queue_pops_lowest_priority:
  "mset (push t q) = add_mset t (mset q) \<and>
   (q \<noteq> [] \<longrightarrow>
      (\<exists>m q'. try_pop q = (Some m, q') \<and> wait_pop q stop_flag = Some (Some m, q') \<and>
          m \<in> set q \<and> mset q' = mset q - {#m#} \<and>
          (\<forall>x \<in> set q. priority m \<le> priority x)))"
proof (intro conjI impI)
  show "mset (push t q) = add_mset t (mset q)"
    by (simp add: push_def)
next
  assume ne: "q \<noteq> []"
  have "try_pop q = (Some (pq_top q), pq_pop q)"
    using ne by (simp add: try_pop_def)
  moreover have "wait_pop q stop_flag = Some (Some (pq_top q), pq_pop q)"
    using ne by (simp add: wait_pop_def)
  moreover have "pq_top q \<in> set q"
    using ne by (rule pq_top_mem)
  moreover have "mset (pq_pop q) = mset q - {#pq_top q#}"
    using ne by (rule mset_pq_pop)
  moreover have "\<forall>x \<in> set q. priority (pq_top q) \<le> priority x"
    by (simp add: pq_top_least)
  ultimately show "\<exists>m q'. try_pop q = (Some m, q') \<and>
      wait_pop q stop_flag = Some (Some m, q') \<and> m \<in> set q \<and>
      mset q' = mset q - {#m#} \<and> (\<forall>x \<in> set q. priority m \<le> priority x)"
    by blast
qed

theorem global_queue_pops_lowest_priority_witness:
  "try_pop [\<lparr>func = Some 0, priority = 5\<rparr>, \<lparr>func = Some 1, priority = 2\<rparr>,
            \<lparr>func = Some 2, priority = 7\<rparr>]
     = (Some \<lparr>func = Some 1, priority = 2\<rparr>,
        [\<lparr>func = Some 0, priority = 5\<rparr>, \<lparr>func = Some 2, priority = 7\<rparr>]) \<and>
   (\<exists>m. m \<in> set [\<lparr>func = Some 0, priority = 5\<rparr>, \<lparr>func = Some 1, priority = 2\<rparr>,
                  \<lparr>func = Some 2, priority = 7\<rparr>] \<and>
        fst (try_pop [\<lparr>func = Some 0, priority = 5\<rparr>, \<lparr>func = Some 1, priority = 2\<rparr>,
                      \<lparr>func = Some 2, priority = 7\<rparr>]) = Some m \<and> priority m \<le> 2)"
proof -
  let ?q = "[\<lparr>func = Some 0, priority = 5\<rparr>, \<lparr>func = Some 1, priority = 2\<rparr>,
             \<lparr>func = Some (2::nat), priority = 7\<rparr>]"
  have ne: "?q \<noteq> []" by simp
  from global_queue_pops_lowest_priority [of undefined ?q False] ne
  obtain m q' where m: "try_pop ?q = (Some m, q')" "m \<in> set ?q"
      "\<forall>x \<in> set ?q. priority m \<le> priority x"
    by blast
  from m(3) have "priority m \<le> 2" by simp
  moreover have "try_pop ?q = (Some \<lparr>func = Some 1, priority = 2\<rparr>,
        [\<lparr>func = Some 0, priority = 5\<rparr>, \<lparr>func = Some 2, priority = 7\<rparr>])"
    by (simp add: try_pop_def pq_top_def pq_pop_def task_less_def)
  ultimately show ?thesis using m(1,2) by auto
qed

section \<open>The stealing deque hands out every task exactly once\<close>

lemma pushed_append: "pushed (xs @ ys) = pushed xs @ pushed ys"
  by (induction xs rule: pushed.induct) auto

lemma deque_run_snoc: "deque_run (ops @ [x]) = deque_apply (deque_run ops) x"
  by (simp add: deque_run_def)

lemma subseq_butlast: "subseq (butlast xs) xs"
  by (rule prefix_imp_subseq) (rule prefixeq_butlast)

lemma deque_conservation:
  "mset (pushed ops) =
     mset (popped (deque_run ops)) + mset (stolen (deque_run ops)) + mset (contents (deque_run ops))"
proof (induction ops rule: rev_induct)
  case Nil
  show ?case by (simp add: deque_run_def)
next
  case (snoc x ops)
  show ?case
  proof (cases x)
    case (Push_front t)
    then show ?thesis
      using snoc by (simp add: deque_run_snoc pushed_append push_front_def)
  next
    case Pop_front
    then show ?thesis
      using snoc
      by (cases "contents (deque_run ops)")
         (simp_all add: deque_run_snoc pushed_append pop_front_def)
  next
    case Steal
    then show ?thesis
      using snoc
      by (cases "contents (deque_run ops)" rule: rev_cases)
         (simp_all add: deque_run_snoc pushed_append steal_def)
  qed
qed

lemma deque_order: "subseq (contents (deque_run ops)) (rev (pushed ops))"
proof (induction ops rule: rev_induct)
  case Nil
  show ?case by (simp add: deque_run_def)
next
  case (snoc x ops)
  show ?case
  proof (cases x)
    case (Push_front t)
    then show ?thesis
      using snoc by (simp add: deque_run_snoc pushed_append push_front_def)
  next
    case Pop_front
    then show ?thesis
      using snoc
      by (cases "contents (deque_run ops)")
         (auto simp add: deque_run_snoc pushed_append pop_front_def dest: subseq_Cons')
  next
    case Steal
    have "subseq (butlast (contents (deque_run ops))) (contents (deque_run ops))"
      by (rule subseq_butlast)
    then have "subseq (butlast (contents (deque_run ops))) (rev (pushed ops))"
      using snoc subseq_order.order_trans by blast
    then show ?thesis
      using snoc Steal by (simp add: deque_run_snoc pushed_append steal_def)
  qed
qed

lemma push_all_front: "foldl (\<lambda>d x. push_front x d) d ts = rev ts @ d"
  by (induction ts arbitrary: d) (simp_all add: push_front_def)

text \<open>
  C3. After any history of \<open>push_front\<close>, \<open>pop_front\<close> and \<open>steal\<close> calls on one deque that
  starts empty, the tasks pushed are, counted with multiplicity, exactly the tasks handed
  out by \<open>pop_front\<close>, those handed out by \<open>steal\<close> and those still queued; so when the
  pushed tasks are pairwise different no task is handed out twice, none is handed out and
  still queued, and none is lost. The queued tasks stand in the deque from the most
  recently pushed to the oldest; \<open>pop_front\<close> takes the first of them (it returns a task
  just pushed) and \<open>steal\<close> the last (after pushes only, the task pushed first).
\<close>

theorem deque_delivers_each_task_once:
  "mset (pushed ops) =
     mset (popped (deque_run ops)) + mset (stolen (deque_run ops)) + mset (contents (deque_run ops)) \<and>
   (distinct (pushed ops) \<longrightarrow>
      distinct (popped (deque_run ops) @ stolen (deque_run ops) @ contents (deque_run ops))) \<and>
   subseq (contents (deque_run ops)) (rev (pushed ops)) \<and>
   pop_front (push_front t d) = (Some t, d) \<and>
   steal (foldl (\<lambda>d x. push_front x d) [] (t # ts)) = (Some t, foldl (\<lambda>d x. push_front x d) [] ts) \<and>
   (d \<noteq> [] \<longrightarrow> pop_front d = (Some (hd d), tl d) \<and> steal d = (Some (last d), butlast d)) \<and>
   pop_front [] = (None, []) \<and> steal [] = (None, [])"
proof -
  let ?l = "deque_run ops"
  have cons: "mset (pushed ops) = mset (popped ?l) + mset (stolen ?l) + mset (contents ?l)"
    by (rule deque_conservation)
  have dist: "distinct (popped ?l @ stolen ?l @ contents ?l)" if "distinct (pushed ops)"
  proof -
    have "mset (popped ?l @ stolen ?l @ contents ?l) = mset (pushed ops)"
      using cons by simp
    then show ?thesis
      using that mset_eq_imp_distinct_iff by blast
  qed
  have ends: "steal (foldl (\<lambda>d x. push_front x d) [] (t # ts))
                = (Some t, foldl (\<lambda>d x. push_front x d) [] ts)"
    by (simp add: push_all_front steal_def)
  show ?thesis
    using cons dist deque_order [of ops] ends
    by (simp add: pop_front_def push_front_def steal_def)
qed

theorem deque_delivers_each_task_once_witness:
  "distinct (pushed [Push_front \<lparr>func = Some 0, priority = 0\<rparr>,
                     Push_front \<lparr>func = Some 1, priority = 0\<rparr>,
                     Push_front \<lparr>func = Some 2, priority = 0\<rparr>, Steal, Pop_front, Steal, Steal]) \<and>
   distinct (popped (deque_run [Push_front \<lparr>func = Some 0, priority = 0\<rparr>,
                     Push_front \<lparr>func = Some 1, priority = 0\<rparr>,
                     Push_front \<lparr>func = Some 2, priority = 0\<rparr>, Steal, Pop_front, Steal, Steal]) @
             stolen (deque_run [Push_front \<lparr>func = Some 0, priority = 0\<rparr>,
                     Push_front \<lparr>func = Some 1, priority = 0\<rparr>,
                     Push_front \<lparr>func = Some 2, priority = 0\<rparr>, Steal, Pop_front, Steal, Steal]) @
             contents (deque_run [Push_front \<lparr>func = Some 0, priority = 0\<rparr>,
                     Push_front \<lparr>func = Some 1, priority = 0\<rparr>,
                     Push_front \<lparr>func = Some 2, priority = 0\<rparr>, Steal, Pop_front, Steal, Steal])) \<and>
   deque_run [Push_front \<lparr>func = Some 0, priority = 0\<rparr>,
              Push_front \<lparr>func = Some 1, priority = 0\<rparr>,
              Push_front \<lparr>func = Some 2, priority = 0\<rparr>, Steal, Pop_front, Steal, Steal]
     = \<lparr>contents = [], popped = [\<lparr>func = Some 2, priority = 0\<rparr>],
        stolen = [\<lparr>func = Some 0, priority = 0\<rparr>, \<lparr>func = Some 1, priority = 0\<rparr>]\<rparr> \<and>
   [\<lparr>func = Some (7::nat), priority = 3\<rparr>] \<noteq> [] \<and>
   steal [\<lparr>func = Some 7, priority = 3\<rparr>] = (Some \<lparr>func = Some 7, priority = 3\<rparr>, [])"
proof -
  let ?ops = "[Push_front \<lparr>func = Some 0, priority = 0\<rparr>,
               Push_front \<lparr>func = Some 1, priority = 0\<rparr>,
               Push_front \<lparr>func = Some 2, priority = 0\<rparr>, Steal, Pop_front, Steal, Steal]"
  let ?d = "[\<lparr>func = Some (7::nat), priority = 3\<rparr>]"
  have d: "distinct (pushed ?ops)" by simp
  have ne: "?d \<noteq> []" by simp
  have run: "deque_run ?ops
     = \<lparr>contents = [], popped = [\<lparr>func = Some 2, priority = 0\<rparr>],
        stolen = [\<lparr>func = Some 0, priority = 0\<rparr>, \<lparr>func = Some 1, priority = 0\<rparr>]\<rparr>"
    by (simp add: deque_run_def push_front_def pop_front_def steal_def)
  from deque_delivers_each_task_once [of ?ops undefined ?d undefined] d ne
  have "distinct (popped (deque_run ?ops) @ stolen (deque_run ?ops) @ contents (deque_run ?ops))"
    and "steal ?d = (Some (last ?d), butlast ?d)"
    by blast+
  then show ?thesis using d run by simp
qed

section \<open>Submission after shutdown\<close>

lemma shutdown_now_keeps:
  "stop (shutdown_now p) \<and> workers (shutdown_now p) = workers p \<and>
   active_tasks (shutdown_now p) = active_tasks p \<and> stats (shutdown_now p) = stats p \<and>
   num_threads (shutdown_now p) = num_threads p \<and> clock (shutdown_now p) = clock p \<and>
   terminated (shutdown_now p) = terminated p"
  by (simp add: shutdown_now_def Let_def split: prod.splits)

text \<open>
  C4. On a pool whose stop flag is set, \<open>submit_priority\<close> and \<open>submit\<close> return the
  \<^verbatim>\<open>runtime_error\<close> and nothing else: the submitting thread's step leaves the pool as it
  was, so no packaged task is allocated, no queue grows and the submitted counter keeps
  its value. Both \<open>shutdown\<close> and \<open>shutdown_now\<close> set the flag. On a pool whose stop flag
  is not set neither \<open>submit_priority\<close> nor \<open>submit\<close> is ever rejected: each returns a
  future, having allocated one pending packaged task, pushed one task (of the given
  priority, and of priority 0 for \<open>submit\<close>) on the global queue and counted one
  submission.
\<close>

theorem submit_rejected_after_shutdown:
  "(stop p \<longrightarrow>
      submit_priority prio f p = Inl (Runtime_error ''Cannot submit to stopped thread pool'') \<and>
      submit f p = Inl (Runtime_error ''Cannot submit to stopped thread pool'') \<and>
      client_step (Submit prio f) p = Some p) \<and>
   (\<not> stop p \<longrightarrow>
      (\<exists>result p'. submit_priority prio f p = Inr (result, p') \<and>
         heap p' = heap p @ [\<lparr>stored = f, state = Pending\<rparr>] \<and>
         global_queue p' = global_queue p @ [\<lparr>func = Some result, priority = prio\<rparr>] \<and>
         total_tasks_submitted (stats p') = total_tasks_submitted (stats p) + 1) \<and>
      (\<exists>result p'. submit f p = Inr (result, p') \<and>
         heap p' = heap p @ [\<lparr>stored = f, state = Pending\<rparr>] \<and>
         global_queue p' = global_queue p @ [\<lparr>func = Some result, priority = 0\<rparr>] \<and>
         total_tasks_submitted (stats p') = total_tasks_submitted (stats p) + 1)) \<and>
   stop (shutdown p) \<and> stop (shutdown_now p)"
  by (simp add: submit_priority_def submit_def Let_def push_def shutdown_def shutdown_now_keeps)

theorem submit_rejected_after_shutdown_witness:
  "stop (shutdown (ThreadPool 2)) \<and>
   submit_priority 3 (Returns 1) (shutdown (ThreadPool 2))
     = Inl (Runtime_error ''Cannot submit to stopped thread pool'') \<and>
   client_step (Submit 3 (Returns 1)) (shutdown (ThreadPool 2)) = Some (shutdown (ThreadPool 2)) \<and>
   stop (ThreadPool 2) = False \<and>
   isl (submit_priority 3 (Returns 1) (ThreadPool 2)) = False \<and>
   isl (submit (Returns 1) (ThreadPool 2)) = False"
  using submit_rejected_after_shutdown [of "shutdown (ThreadPool 2)" 3 "Returns 1"]
    submit_rejected_after_shutdown [of "ThreadPool 2" 3 "Returns 1"]
  by (auto simp: shutdown_def ThreadPool_def)

section \<open>Cancellation by \<open>shutdown_now\<close>\<close>

lemma length_discard [simp]: "length (discard ts h) = length h"
  by (simp add: discard_def)

lemma discard_nth: "k < length h \<Longrightarrow> discard ts h ! k = (if Some k \<in> func ` set ts \<and> state (h ! k) = Pending
       then (h ! k)\<lparr>state := Ready_failure Broken_promise\<rparr> else h ! k)"
  by (simp add: discard_def)

lemma discard_Nil [simp]: "discard [] h = h"
  by (rule nth_equalityI) (simp_all add: discard_nth)

lemma destroy_task_discard: "destroy_task t h = discard [t] h"
proof (rule nth_equalityI)
  show "length (destroy_task t h) = length (discard [t] h)"
    by (simp add: destroy_task_def abandon_def split: option.splits)
next
  fix k
  assume "k < length (destroy_task t h)"
  then have "k < length h"
    by (simp add: destroy_task_def abandon_def split: option.splits if_splits)
  then show "destroy_task t h ! k = discard [t] h ! k"
    by (auto simp add: destroy_task_def abandon_def discard_nth nth_list_update
        split: option.splits)
qed

lemma discard_discard: "set ts = set as \<union> set bs \<Longrightarrow> discard bs (discard as h) = discard ts h"
  by (rule nth_equalityI) (auto simp add: discard_nth)

lemma clear_discard: "clear q h = ([], discard q h)"
proof (induction q h rule: clear.induct)
  case (1 q h)
  show ?case
  proof (cases "q = []")
    case True
    then show ?thesis by (simp add: clear.simps)
  next
    case False
    have top: "pq_top q \<in> set q" using False by (rule pq_top_mem)
    have "x \<in> set q \<longleftrightarrow> x = pq_top q \<or> x \<in> set (pq_pop q)" for x
      using top in_set_remove1 [of x "pq_top q" q] by (cases "x = pq_top q") (auto simp: pq_pop_def)
    then have "set q = set [pq_top q] \<union> set (pq_pop q)"
      by auto
    then have "discard (pq_pop q) (discard [pq_top q] h) = discard q h"
      by (rule discard_discard)
    then show ?thesis
      using False 1 by (subst clear.simps) (simp add: destroy_task_discard)
  qed
qed

lemma drain_discard: "drain d h = ([], discard d h)"
proof (induction d arbitrary: h)
  case Nil
  show ?case by (subst drain.simps) (simp add: pop_front_def)
next
  case (Cons t d)
  have "discard d (discard [t] h) = discard (t # d) h"
    by (rule discard_discard) auto
  then show ?case
    using Cons by (subst drain.simps) (simp add: pop_front_def destroy_task_discard)
qed

lemma drain_all_discard: "drain_all ds h = (replicate (length ds) [], discard (concat ds) h)"
proof (induction ds arbitrary: h)
  case Nil
  show ?case by simp
next
  case (Cons d ds)
  have "discard (concat ds) (discard d h) = discard (concat (d # ds)) h"
    by (rule discard_discard) auto
  then show ?case
    using Cons by (simp add: drain_discard)
qed

lemma shutdown_now_eq:
  "shutdown_now p = p\<lparr>stop := True, global_queue := [],
      local_queues := replicate (length (local_queues p)) [],
      heap := discard (global_queue p @ concat (local_queues p)) (heap p),
      cv_waiters := []\<rparr>"
proof -
  have "discard (concat (local_queues p)) (discard (global_queue p) (heap p))
      = discard (global_queue p @ concat (local_queues p)) (heap p)"
    by (rule discard_discard) auto
  then show ?thesis
    by (simp add: shutdown_now_def Let_def clear_discard drain_all_discard notify_all_def)
qed

text \<open>
  C5, as the code has it. \<open>shutdown_now\<close> sets the stop flag and leaves the global queue
  and every local deque empty. No body of a removed task is run: the shared state of a
  removed task that was pending becomes ready with a broken promise (the packaged task is
  destroyed with its task), and every other shared state, every stored callable, the
  workers with the tasks they hold or execute, the active counter and the statistics are
  as before.
\<close>

theorem shutdown_now_discards_queued_tasks:
  "stop (shutdown_now p) \<and> global_queue (shutdown_now p) = [] \<and>
   local_queues (shutdown_now p) = replicate (length (local_queues p)) [] \<and>
   workers (shutdown_now p) = workers p \<and> active_tasks (shutdown_now p) = active_tasks p \<and>
   stats (shutdown_now p) = stats p \<and>
   length (heap (shutdown_now p)) = length (heap p) \<and>
   (\<forall>k < length (heap p).
      stored (heap (shutdown_now p) ! k) = stored (heap p ! k) \<and>
      state (heap (shutdown_now p) ! k) =
        (if Some k \<in> func ` set (global_queue p @ concat (local_queues p)) \<and>
            state (heap p ! k) = Pending
         then Ready_failure Broken_promise else state (heap p ! k)))"
  by (simp add: shutdown_now_eq discard_nth)

theorem shutdown_now_discards_queued_tasks_witness:
  "shutdown_now
     ((ThreadPool 2)\<lparr>global_queue := [\<lparr>func = Some 0, priority = 4\<rparr>],
        local_queues := [[\<lparr>func = Some 1, priority = 0\<rparr>], []],
        workers := [At_invoke \<lparr>func = Some 2, priority = 0\<rparr> 0, At_pop_front],
        active_tasks := 1,
        heap := [\<lparr>stored = Returns 10, state = Pending\<rparr>, \<lparr>stored = Throws ''e'', state = Pending\<rparr>,
                 \<lparr>stored = Returns 12, state = Pending\<rparr>]\<rparr>)
   = (ThreadPool 2)\<lparr>stop := True,
        workers := [At_invoke \<lparr>func = Some 2, priority = 0\<rparr> 0, At_pop_front],
        active_tasks := 1,
        heap := [\<lparr>stored = Returns 10, state = Ready_failure Broken_promise\<rparr>,
                 \<lparr>stored = Throws ''e'', state = Ready_failure Broken_promise\<rparr>,
                 \<lparr>stored = Returns 12, state = Pending\<rparr>]\<rparr> \<and>
   (1::nat) < length [\<lparr>stored = Returns 10, state = Pending\<rparr>, \<lparr>stored = Throws ''e'', state = Pending\<rparr>,
                 \<lparr>stored = Returns 12, state = Pending\<rparr>] \<and>
   state (heap (shutdown_now
     ((ThreadPool 2)\<lparr>global_queue := [\<lparr>func = Some 0, priority = 4\<rparr>],
        local_queues := [[\<lparr>func = Some 1, priority = 0\<rparr>], []],
        workers := [At_invoke \<lparr>func = Some 2, priority = 0\<rparr> 0, At_pop_front],
        active_tasks := 1,
        heap := [\<lparr>stored = Returns 10, state = Pending\<rparr>, \<lparr>stored = Throws ''e'', state = Pending\<rparr>,
                 \<lparr>stored = Returns 12, state = Pending\<rparr>]\<rparr>)) ! 1) = Ready_failure Broken_promise"
proof -
  let ?h = "[\<lparr>stored = Returns 10, state = Pending\<rparr>, \<lparr>stored = Throws ''e'', state = Pending\<rparr>,
             \<lparr>stored = Returns 12, state = Pending\<rparr>]"
  let ?p = "(ThreadPool 2)\<lparr>global_queue := [\<lparr>func = Some 0, priority = 4\<rparr>],
        local_queues := [[\<lparr>func = Some 1, priority = 0\<rparr>], []],
        workers := [At_invoke \<lparr>func = Some 2, priority = 0\<rparr> 0, At_pop_front],
        active_tasks := 1, heap := ?h\<rparr>"
  have len: "(1::nat) < length ?h" by simp
  have hp: "heap ?p = ?h" by simp
  have "state (heap (shutdown_now ?p) ! 1) =
        (if Some 1 \<in> func ` set (global_queue ?p @ concat (local_queues ?p)) \<and>
            state (heap ?p ! 1) = Pending
         then Ready_failure Broken_promise else state (heap ?p ! 1))"
    using shutdown_now_discards_queued_tasks [of ?p] len hp by simp
  then have one: "state (heap (shutdown_now ?p) ! 1) = Ready_failure Broken_promise"
    by simp
  have all: "shutdown_now ?p = (ThreadPool 2)\<lparr>stop := True,
        workers := [At_invoke \<lparr>func = Some 2, priority = 0\<rparr> 0, At_pop_front],
        active_tasks := 1,
        heap := [\<lparr>stored = Returns 10, state = Ready_failure Broken_promise\<rparr>,
                 \<lparr>stored = Throws ''e'', state = Ready_failure Broken_promise\<rparr>,
                 \<lparr>stored = Returns 12, state = Pending\<rparr>]\<rparr>"
    by (simp add: shutdown_now_eq discard_def ThreadPool_def upt_rec numeral_2_eq_2)
  show ?thesis using one all len by simp
qed

text \<open>
  The claim's sentence that the result channels of the discarded tasks are never resolved
  by this path fails: a task is submitted to a pool of one worker and \<open>shutdown_now\<close> is
  called before the worker has taken it. Before the call \<^verbatim>\<open>get\<close> on the task's future
  blocks; after it \<^verbatim>\<open>get\<close> rethrows the broken promise.
\<close>

theorem shutdown_now_resolves_discarded_channel:
  "map_option (\<lambda>p. future_get 0 (heap p)) (run [Submit 0 (Returns 5)] (ThreadPool 1)) = Some None \<and>
   map_option (\<lambda>p. future_get 0 (heap p)) (run [Submit 0 (Returns 5), Shutdown_now] (ThreadPool 1))
     = Some (Some (Inl Broken_promise))"
  by code_simp

section \<open>The scheduling order of a worker\<close>

lemma mod_wrap:
  assumes "w < n" "j < n"
  shows "(w + j) mod n = (if w + j < n then w + j else w + j - (n::nat))"
proof (cases "w + j < n")
  case True
  then show ?thesis by simp
next
  case False
  then have "(w + j) mod n = (w + j - n) mod n"
    by (simp add: le_mod_geq)
  also have "\<dots> = w + j - n"
    using assms by simp
  finally show ?thesis using False by simp
qed

lemma victims_set:
  assumes "w < n"
  shows "set (victims w n) = {v. v < n \<and> v \<noteq> w}"
proof (intro set_eqI iffI)
  fix v
  assume "v \<in> set (victims w n)"
  then obtain j where j: "1 \<le> j" "j < n" "v = (w + j) mod n"
    by (auto simp: victims_def)
  then show "v \<in> {v. v < n \<and> v \<noteq> w}"
    using assms mod_wrap [of w n j] by (auto split: if_splits)
next
  fix v
  assume "v \<in> {v. v < n \<and> v \<noteq> w}"
  then have v: "v < n" "v \<noteq> w" by simp_all
  define j where "j = (if w < v then v - w else v + n - w)"
  have "1 \<le> j" "j < n" "(w + j) mod n = v"
    using v assms mod_wrap [of w n j] by (auto simp: j_def split: if_splits)
  then show "v \<in> set (victims w n)"
    by (auto simp: victims_def intro!: image_eqI [of _ _ j])
qed

lemma victims_distinct:
  assumes "w < n"
  shows "distinct (victims w n)"
proof -
  have "inj_on (\<lambda>j. (w + j) mod n) (set [1..<n])"
  proof (rule inj_onI)
    fix i j
    assume "i \<in> set [1..<n]" "j \<in> set [1..<n]" "(w + i) mod n = (w + j) mod n"
    then show "i = j"
      using assms mod_wrap [of w n i] mod_wrap [of w n j] by (auto split: if_splits)
  qed
  then show ?thesis
    by (simp add: victims_def distinct_map)
qed

lemma probes_victims:
  assumes "w < n"
  shows "filter (\<lambda>v. v \<noteq> w) (map (\<lambda>j. (w + j + 1) mod n) [0..<n]) = victims w n"
proof -
  from assms obtain m where n: "n = Suc m"
    by (cases n) auto
  have "map (\<lambda>j. (w + j + 1) mod n) [0..<m] = map (\<lambda>j. (w + j) mod n) (map Suc [0..<m])"
    by simp
  also have "\<dots> = victims w n"
    by (simp only: map_Suc_upt victims_def n One_nat_def)
  finally have a: "map (\<lambda>j. (w + j + 1) mod n) [0..<m] = victims w n" .
  have "filter (\<lambda>v. v \<noteq> w) (victims w n) = victims w n"
    using victims_set [OF assms] by (auto simp: filter_id_conv)
  moreover have "(w + m + 1) mod n = w"
  proof -
    have "(w + m + 1) mod n = (w + n) mod n"
      by (simp add: n)
    also have "\<dots> = w"
      using assms by simp
    finally show ?thesis .
  qed
  ultimately show ?thesis
    using a by (simp add: n)
qed

lemma local_steal_empty:
  assumes "local_queues p ! v = []"
  shows "local_steal v p = (None, p)"
proof -
  have "(local_queues p)[v := []] = local_queues p"
    using assms list_update_id [of "local_queues p" v] by simp
  then show ?thesis
    using assms by (simp add: local_steal_def steal_def)
qed

lemma local_steal_nonempty:
  "local_queues p ! v \<noteq> [] \<Longrightarrow>
   local_steal v p = (Some (last (local_queues p ! v)),
      p\<lparr>local_queues := (local_queues p)[v := butlast (local_queues p ! v)]\<rparr>)"
  by (simp add: local_steal_def steal_def)

lemma try_steal_loop_find:
  "try_steal_loop i w p =
     (case find (\<lambda>v. local_queues p ! v \<noteq> [])
              (filter (\<lambda>v. v \<noteq> w) (map (\<lambda>j. (w + j + 1) mod num_threads p) [i..<num_threads p])) of
        Some v \<Rightarrow> (Some (last (local_queues p ! v)),
                   count_stolen (p\<lparr>local_queues := (local_queues p)[v := butlast (local_queues p ! v)]\<rparr>))
      | None \<Rightarrow> (None, p))"
proof (induction "num_threads p - i" arbitrary: i)
  case 0
  then show ?case
    by (subst try_steal_loop.simps) simp
next
  case (Suc k)
  then have lt: "i < num_threads p" and k: "k = num_threads p - Suc i"
    by simp_all
  have IH: "try_steal_loop (Suc i) w p =
     (case find (\<lambda>v. local_queues p ! v \<noteq> [])
              (filter (\<lambda>v. v \<noteq> w) (map (\<lambda>j. (w + j + 1) mod num_threads p) [Suc i..<num_threads p])) of
        Some v \<Rightarrow> (Some (last (local_queues p ! v)),
                   count_stolen (p\<lparr>local_queues := (local_queues p)[v := butlast (local_queues p ! v)]\<rparr>))
      | None \<Rightarrow> (None, p))"
    using Suc.hyps(1) [OF k] .
  let ?victim = "(w + i + 1) mod num_threads p"
  have upt: "[i..<num_threads p] = i # [Suc i..<num_threads p]"
    using lt by (simp add: upt_conv_Cons)
  show ?case
  proof (cases "?victim = w")
    case True
    then show ?thesis
      using lt IH by (subst try_steal_loop.simps) (simp add: upt Let_def)
  next
    case False
    show ?thesis
    proof (cases "local_queues p ! ?victim = []")
      case True
      then show ?thesis
        using lt IH False
        by (subst try_steal_loop.simps) (simp add: upt local_steal_empty Let_def)
    next
      case ne: False
      then show ?thesis
        using lt False
        by (subst try_steal_loop.simps) (simp add: upt local_steal_nonempty Let_def)
    qed
  qed
qed

lemma try_steal_spec:
  assumes "w < num_threads p"
  shows "try_steal w p =
     (case find (\<lambda>v. local_queues p ! v \<noteq> []) (victims w (num_threads p)) of
        Some v \<Rightarrow> (Some (last (local_queues p ! v)),
                   count_stolen (p\<lparr>local_queues := (local_queues p)[v := butlast (local_queues p ! v)]\<rparr>))
      | None \<Rightarrow> (None, p))"
  unfolding try_steal_def try_steal_loop_find
  by (subst probes_victims [OF assms]) (rule refl)


lemma fetch_spec:
  assumes "w < num_threads p"
  shows "fetch w p = spec_fetch w p"
proof (cases "local_queues p ! w = []")
  case False
  then show ?thesis
    by (simp add: fetch_def spec_fetch_def local_pop_front_def pop_front_def)
next
  case own: True
  have own_id: "(local_queues p)[w := []] = local_queues p"
    using own list_update_id [of "local_queues p" w] by simp
  have l: "local_pop_front w p = (None, p)"
    using own own_id by (simp add: local_pop_front_def pop_front_def)
  show ?thesis
  proof (cases "global_queue p = []")
    case False
    then show ?thesis
      using own l by (simp add: fetch_def spec_fetch_def global_try_pop_def try_pop_def)
  next
    case True
    then have g: "global_try_pop p = (None, p)"
      by (simp add: global_try_pop_def try_pop_def)
    have w: "global_wait_pop p = (if stop p then Some (None, p) else None)"
      using True by (simp add: global_wait_pop_def wait_pop_def)
    show ?thesis
      using own True
      by (simp add: fetch_def spec_fetch_def l g w try_steal_spec [OF assms]
          split: option.splits)
  qed
qed

lemma iteration_break:
  "worker_iteration w d p = Break p' \<longleftrightarrow> fetch w p = Some (None, p') \<and> stop p'"
  by (auto simp: worker_iteration_def split: option.splits if_splits)

lemma find_Some_mem: "find P xs = Some x \<Longrightarrow> x \<in> set xs \<and> P x"
  by (induction xs) (auto split: if_splits)

lemma spec_fetch_nothing:
  "spec_fetch w p = Some (None, p') \<longleftrightarrow>
     local_queues p ! w = [] \<and> global_queue p = [] \<and>
     (\<forall>v \<in> set (victims w (num_threads p)). local_queues p ! v = []) \<and> stop p \<and> p' = p"
proof (cases "local_queues p ! w = [] \<and> global_queue p = []")
  case False
  then show ?thesis
    by (auto simp: spec_fetch_def)
next
  case True
  show ?thesis
  proof (cases "find (\<lambda>v. local_queues p ! v \<noteq> []) (victims w (num_threads p))")
    case None
    then have "\<forall>v \<in> set (victims w (num_threads p)). local_queues p ! v = []"
      by (simp add: find_None_iff)
    then show ?thesis
      using True None by (auto simp: spec_fetch_def)
  next
    case (Some v)
    then have "v \<in> set (victims w (num_threads p)) \<and> local_queues p ! v \<noteq> []"
      by (rule find_Some_mem)
    then have "\<not> (\<forall>v \<in> set (victims w (num_threads p)). local_queues p ! v = [])"
      by blast
    then show ?thesis
      using True Some by (simp add: spec_fetch_def)
  qed
qed

text \<open>
  C1. For a worker of a pool with one deque per worker, one iteration run alone fetches
  exactly what the scheduling order of the specification prescribes (\<open>spec_fetch\<close>): its
  own deque's front first, then the global queue, then the back of the deque of the first
  victim holding a task, the victims being all other workers (never the worker itself),
  each once, in the order \<open>worker_id + 1, worker_id + 2, \<dots>\<close> modulo the worker count; and
  last the wait on the global queue, which hands out its top task when it has one, returns
  empty when it has none and the stop flag is set, and blocks otherwise. The iteration
  leaves the loop exactly when the worker's deque, the global queue and every victim's
  deque are empty and the stop flag is set.
\<close>

theorem worker_scheduling_order:
  assumes "worker_id < num_threads p" and "length (local_queues p) = num_threads p"
  shows "fetch worker_id p = spec_fetch worker_id p \<and>
    ((\<exists>p'. worker_iteration worker_id d p = Break p') \<longleftrightarrow>
       local_queues p ! worker_id = [] \<and> global_queue p = [] \<and>
       (\<forall>v \<in> set (victims worker_id (num_threads p)). local_queues p ! v = []) \<and> stop p) \<and>
    set (victims worker_id (num_threads p)) = {v. v < num_threads p \<and> v \<noteq> worker_id} \<and>
    distinct (victims worker_id (num_threads p)) \<and>
    victims worker_id (num_threads p) =
      map (\<lambda>j. (worker_id + j) mod num_threads p) [1..<num_threads p] \<and>
    global_wait_pop p =
      (if global_queue p \<noteq> []
       then Some (Some (pq_top (global_queue p)), p\<lparr>global_queue := pq_pop (global_queue p)\<rparr>)
       else if stop p then Some (None, p) else None)"
proof -
  have f: "fetch worker_id p = spec_fetch worker_id p"
    using assms(1) by (rule fetch_spec)
  have b: "(\<exists>p'. worker_iteration worker_id d p = Break p') \<longleftrightarrow>
       local_queues p ! worker_id = [] \<and> global_queue p = [] \<and>
       (\<forall>v \<in> set (victims worker_id (num_threads p)). local_queues p ! v = []) \<and> stop p"
    unfolding iteration_break f spec_fetch_nothing by blast
  note vs = victims_set [OF assms(1)] and vd = victims_distinct [OF assms(1)]
    and vdef = victims_def [of worker_id "num_threads p"]
  have w: "global_wait_pop p =
      (if global_queue p \<noteq> []
       then Some (Some (pq_top (global_queue p)), p\<lparr>global_queue := pq_pop (global_queue p)\<rparr>)
       else if stop p then Some (None, p) else None)"
    by (simp add: global_wait_pop_def wait_pop_def)
  show ?thesis
    by (rule conjI [OF f conjI [OF b conjI [OF vs conjI [OF vd conjI [OF vdef w]]]]])
qed

theorem worker_scheduling_order_witness:
  "(1::nat) < num_threads ((ThreadPool 3)\<lparr>local_queues :=
       [[\<lparr>func = Some 0, priority = 0\<rparr>], [],
        [\<lparr>func = Some 2, priority = 0\<rparr>, \<lparr>func = Some 1, priority = 0\<rparr>]]\<rparr>) \<and>
   length (local_queues ((ThreadPool 3)\<lparr>local_queues :=
       [[\<lparr>func = Some 0, priority = 0\<rparr>], [],
        [\<lparr>func = Some 2, priority = 0\<rparr>, \<lparr>func = Some 1, priority = 0\<rparr>]]\<rparr>)) = 3 \<and>
   victims 1 3 = [2, 0] \<and>
   fetch 1 ((ThreadPool 3)\<lparr>local_queues :=
       [[\<lparr>func = Some 0, priority = 0\<rparr>], [],
        [\<lparr>func = Some 2, priority = 0\<rparr>, \<lparr>func = Some 1, priority = 0\<rparr>]]\<rparr>)
     = Some (Some \<lparr>func = Some 1, priority = 0\<rparr>,
         (ThreadPool 3)\<lparr>local_queues :=
             [[\<lparr>func = Some 0, priority = 0\<rparr>], [], [\<lparr>func = Some 2, priority = 0\<rparr>]],
           stats := \<lparr>total_tasks_submitted = 0, total_tasks_completed = 0,
                     total_tasks_stolen = 1, total_execution_time = 0\<rparr>\<rparr>) \<and>
   (\<exists>p'. worker_iteration 1 0 (shutdown (ThreadPool 3)) = Break p')"
proof -
  let ?p = "(ThreadPool 3)\<lparr>local_queues :=
       [[\<lparr>func = Some 0, priority = 0\<rparr>], [],
        [\<lparr>func = Some 2, priority = 0\<rparr>, \<lparr>func = Some 1, priority = 0\<rparr>]]\<rparr>"
  let ?s = "shutdown (ThreadPool 3)"
  have v: "victims 1 3 = [2, 0]"
    by (simp add: victims_def upt_rec)
  have v': "victims (Suc 0) 3 = [2, 0]"
    using v by simp
  have n: "(1::nat) < num_threads ?p" "length (local_queues ?p) = num_threads ?p"
    by (simp_all add: ThreadPool_def)
  have "fetch 1 ?p = spec_fetch 1 ?p"
    using worker_scheduling_order [OF n] by blast
  also have "\<dots> = Some (Some \<lparr>func = Some 1, priority = 0\<rparr>,
         (ThreadPool 3)\<lparr>local_queues :=
             [[\<lparr>func = Some 0, priority = 0\<rparr>], [], [\<lparr>func = Some 2, priority = 0\<rparr>]],
           stats := \<lparr>total_tasks_submitted = 0, total_tasks_completed = 0,
                     total_tasks_stolen = 1, total_execution_time = 0\<rparr>\<rparr>)"
    by (simp add: spec_fetch_def v' count_stolen_def ThreadPool_def)
  finally have f: "fetch 1 ?p = Some (Some \<lparr>func = Some 1, priority = 0\<rparr>,
         (ThreadPool 3)\<lparr>local_queues :=
             [[\<lparr>func = Some 0, priority = 0\<rparr>], [], [\<lparr>func = Some 2, priority = 0\<rparr>]],
           stats := \<lparr>total_tasks_submitted = 0, total_tasks_completed = 0,
                     total_tasks_stolen = 1, total_execution_time = 0\<rparr>\<rparr>)" .
  have ns: "(1::nat) < num_threads ?s" "length (local_queues ?s) = num_threads ?s"
    by (simp_all add: ThreadPool_def shutdown_def)
  have "local_queues ?s ! 1 = [] \<and> global_queue ?s = [] \<and>
       (\<forall>v \<in> set (victims 1 (num_threads ?s)). local_queues ?s ! v = []) \<and> stop ?s"
    by (simp add: ThreadPool_def shutdown_def v')
  then have "\<exists>p'. worker_iteration 1 0 ?s = Break p'"
    using worker_scheduling_order [OF ns, of 0] by blast
  then show ?thesis
    using v f n by simp
qed

section \<open>The local deques are never used\<close>

lemma no_local_work_init: "no_local_work (ThreadPool n)"
  by (simp add: no_local_work_def ThreadPool_def Let_def list_all_iff)

lemma no_local_work_nth:
  assumes "no_local_work p" "v < num_threads p"
  shows "local_queues p ! v = []"
  using assms by (simp add: no_local_work_def list_all_length)

lemma local_pop_front_empty:
  assumes "local_queues p ! w = []"
  shows "local_pop_front w p = (None, p)"
proof -
  have "(local_queues p)[w := []] = local_queues p"
    using assms list_update_id [of "local_queues p" w] by simp
  then show ?thesis
    using assms by (simp add: local_pop_front_def pop_front_def)
qed

lemma no_local_work_cong:
  assumes "no_local_work p"
    and "num_threads p' = num_threads p" "local_queues p' = local_queues p"
    and "length (workers p') = length (workers p)"
    and "total_tasks_stolen (stats p') = total_tasks_stolen (stats p)"
    and "list_all (\<lambda>ws. \<not> counting_steal ws) (workers p')"
  shows "no_local_work p'"
  using assms by (simp add: no_local_work_def)

lemma action_no_local_work:
  assumes inv: "no_local_work p" and w: "w < num_threads p"
    and pc: "\<not> counting_steal ws" and a: "action ws w p = Some (pc', p')"
  shows "\<not> counting_steal pc' \<and> num_threads p' = num_threads p \<and>
     local_queues p' = local_queues p \<and> workers p' = workers p \<and>
     total_tasks_stolen (stats p') = total_tasks_stolen (stats p)"
proof (cases ws)
  case At_pop_front
  have "local_pop_front w p = (None, p)"
    using no_local_work_nth [OF inv w] by (rule local_pop_front_empty)
  then show ?thesis using a At_pop_front by auto
next
  case At_try_pop
  then show ?thesis
    using a by (auto simp: global_try_pop_def split: option.splits prod.splits)
next
  case (At_steal i)
  let ?v = "(w + i + 1) mod num_threads p"
  have "?v < num_threads p"
    using w by simp
  then have "local_steal ?v p = (None, p)"
    using no_local_work_nth [OF inv] local_steal_empty by blast
  then show ?thesis
    using a At_steal by (auto simp: Let_def split: if_splits)
next
  case At_wait_pop
  then show ?thesis
    using a 
    by (auto simp: global_wait_pop_def split: option.splits prod.splits)
qed (use a pc in \<open>auto split: sum.splits if_splits\<close>)


lemma list_all_update:
  "list_all P xs \<Longrightarrow> P x \<Longrightarrow> list_all P (xs[i := x])"
  using set_update_subset_insert [of xs i x] by (auto simp: list_all_iff)

lemma worker_step_no_local_work:
  assumes inv: "no_local_work p" and s: "worker_step w p = Some p'"
  shows "no_local_work p'"
proof -
  from s have w: "w < length (workers p)"
    by (auto simp: worker_step_def split: if_splits)
  then have wn: "w < num_threads p"
    using inv by (simp add: no_local_work_def)
  from s w obtain pc q where a: "action (workers p ! w) w p = Some (pc, q)"
    and p': "p' = q\<lparr>workers := (workers q)[w := pc]\<rparr>"
    by (auto simp: worker_step_def split: option.splits)
  have all: "list_all (\<lambda>ws. \<not> counting_steal ws) (workers p)"
    using inv by (simp add: no_local_work_def)
  then have "\<not> counting_steal (workers p ! w)"
    using w by (simp add: list_all_length)
  from action_no_local_work [OF inv wn this a]
  have q: "\<not> counting_steal pc" "num_threads q = num_threads p"
    "local_queues q = local_queues p" "workers q = workers p"
    "total_tasks_stolen (stats q) = total_tasks_stolen (stats p)"
    by simp_all
  have "list_all (\<lambda>ws. \<not> counting_steal ws) ((workers p)[w := pc])"
    using all q(1) by (rule list_all_update)
  then show ?thesis
    using inv q by (intro no_local_work_cong [OF inv]) (simp_all add: p')
qed

lemma step_no_local_work:
  assumes inv: "no_local_work p" and s: "step e p = Some p'"
  shows "no_local_work p'"
proof (cases e)
  case (Submit prio f)
  then show ?thesis
    using inv s
    by (auto simp: step_def submit_priority_def Let_def no_local_work_def split: if_splits)
next
  case Shutdown
  then show ?thesis
    using inv s by (auto simp: step_def shutdown_def no_local_work_def split: if_splits)
next
  case Shutdown_now
  then show ?thesis
    using inv s
    by (auto simp: step_def shutdown_now_eq no_local_work_def list_all_iff split: if_splits)
next
  case (Tick d)
  then show ?thesis
    using inv s by (auto simp: step_def no_local_work_def split: if_splits)
next
  case (Work w)
  then have "worker_step w p = Some p'"
    using s by (simp add: step_def split: if_splits)
  with inv show ?thesis
    by (rule worker_step_no_local_work)
next
  case (Wake w)
  then show ?thesis
    using inv s by (auto simp: step_def no_local_work_def split: if_splits)
qed

lemma run_no_local_work:
  "no_local_work p \<Longrightarrow> run es p = Some p' \<Longrightarrow> no_local_work p'"
proof (induction es arbitrary: p)
  case Nil
  then show ?case by simp
next
  case (Cons e es)
  from Cons.prems(2) obtain q where q: "step e p = Some q" "run es q = Some p'"
    by (auto split: option.splits)
  have "no_local_work q"
    using Cons.prems(1) q(1) by (rule step_no_local_work)
  then show ?case
    using q(2) by (rule Cons.IH)
qed

lemma try_steal_nothing:
  assumes inv: "no_local_work p"
  shows "try_steal w p = (None, p)"
proof -
  let ?vs = "filter (\<lambda>v. v \<noteq> w) (map (\<lambda>j. (w + j + 1) mod num_threads p) [0..<num_threads p])"
  have "local_queues p ! v = []" if "v \<in> set ?vs" for v
  proof -
    from that have "v < num_threads p"
      using inv by (auto simp: no_local_work_def)
    with inv show ?thesis
      by (rule no_local_work_nth)
  qed
  then have "find (\<lambda>v. local_queues p ! v \<noteq> []) ?vs = None"
    by (simp only: find_None_iff) blast
  then show ?thesis
    by (simp only: try_steal_def try_steal_loop_find option.case)
qed

text \<open>
  C8. In every state that a pool reaches from its construction by any schedule of
  submissions, shutdowns, clock ticks and worker steps, every local deque is empty, the
  stolen counter is 0 and \<open>try_steal\<close> returns empty for every worker and leaves the pool
  as it is. An accepted submission pushes its task on the global queue and leaves the
  local deques alone; no function of the pool calls \<open>push_front\<close>.
\<close>

theorem local_deques_stay_empty:
  assumes "run es (ThreadPool n) = Some p"
  shows "(\<forall>d \<in> set (local_queues p). d = []) \<and>
     total_tasks_stolen (stats p) = 0 \<and>
     (\<forall>w. try_steal w p = (None, p)) \<and>
     (\<forall>prio f result p'. submit_priority prio f p = Inr (result, p') \<longrightarrow>
        local_queues p' = local_queues p \<and>
        global_queue p' = push \<lparr>func = Some result, priority = prio\<rparr> (global_queue p))"
proof -
  have inv: "no_local_work p"
    using no_local_work_init assms by (rule run_no_local_work)
  have "\<forall>w. try_steal w p = (None, p)"
    using inv by (simp add: try_steal_nothing)
  moreover have "\<forall>prio f result p'. submit_priority prio f p = Inr (result, p') \<longrightarrow>
        local_queues p' = local_queues p \<and>
        global_queue p' = push \<lparr>func = Some result, priority = prio\<rparr> (global_queue p)"
    by (auto simp: submit_priority_def Let_def split: if_splits)
  ultimately show ?thesis
    using inv by (simp add: no_local_work_def list_all_iff)
qed

theorem local_deques_stay_empty_witness:
  "\<exists>p. run [Work 1, Work 1, Work 1, Work 1, Work 1, Submit 0 (Returns 1), Work 1] (ThreadPool 2) = Some p \<and>
     workers p = [At_pop_front, At_inc_active \<lparr>func = Some 0, priority = 0\<rparr>] \<and>
     local_queues p = [[], []] \<and> total_tasks_stolen (stats p) = 0 \<and>
     try_steal 1 p = (None, p)"
proof -
  let ?p = "(ThreadPool 2)\<lparr>workers := [At_pop_front, At_inc_active \<lparr>func = Some 0, priority = 0\<rparr>],
     heap := [\<lparr>stored = Returns 1, state = Pending\<rparr>],
     stats := \<lparr>total_tasks_submitted = 1, total_tasks_completed = 0,
                total_tasks_stolen = 0, total_execution_time = 0\<rparr>\<rparr>"
  have r: "run [Work 1, Work 1, Work 1, Work 1, Work 1, Submit 0 (Returns 1), Work 1] (ThreadPool 2) = Some ?p"
    by code_simp
  have ts: "try_steal 1 ?p = (None, ?p)" and st: "total_tasks_stolen (stats ?p) = 0"
    using local_deques_stay_empty [OF r] by blast+
  have e: "workers ?p = [At_pop_front, At_inc_active \<lparr>func = Some 0, priority = 0\<rparr>]"
    "local_queues ?p = [[], []]"
    by code_simp+
  from r e st ts show ?thesis
    by (intro exI [of _ ?p]) blast
qed

section \<open>Quiescence and the statistics under concurrency\<close>

text \<open>
  C7 does not hold of the code. A pool of one worker receives one task. The worker finds
  its deque empty (line 387) and takes the task from the global queue (line 391); it has
  not yet reached \<^verbatim>\<open>++active_tasks_\<close> (line 412). In this state no task is queued and the
  active counter is 0, so the test of line 346 is false and \<^verbatim>\<open>wait()\<close> returns, although
  the submitted counter is 1, the completed counter is 0 and the task's future is not
  ready. With the worker's next step the active counter is 1.
\<close>

theorem wait_returns_before_task_ran:
  "run [Submit 0 (Returns 1), Work 0, Work 0] (ThreadPool 1)
     = Some ((ThreadPool 1)\<lparr>workers := [At_inc_active \<lparr>func = Some 0, priority = 0\<rparr>],
          heap := [\<lparr>stored = Returns 1, state = Pending\<rparr>],
          stats := \<lparr>total_tasks_submitted = 1, total_tasks_completed = 0,
                    total_tasks_stolen = 0, total_execution_time = 0\<rparr>\<rparr>) \<and>
   wait_test ((ThreadPool 1)\<lparr>workers := [At_inc_active \<lparr>func = Some 0, priority = 0\<rparr>],
          heap := [\<lparr>stored = Returns 1, state = Pending\<rparr>],
          stats := \<lparr>total_tasks_submitted = 1, total_tasks_completed = 0,
                    total_tasks_stolen = 0, total_execution_time = 0\<rparr>\<rparr>) = False \<and>
   future_get 0 [\<lparr>stored = Returns 1, state = Pending\<rparr>] = None \<and>
   map_option active (run [Submit 0 (Returns 1), Work 0, Work 0, Work 0] (ThreadPool 1)) = Some 1"
  by code_simp

text \<open>
  C9 does not hold of the code: the fields of \<^verbatim>\<open>PoolStats\<close> are plain integers, and
  \<^verbatim>\<open>++stats_.total_tasks_completed\<close> (line 419) is a read followed by a write. A pool of two
  workers receives three tasks. Worker 0 runs the first and reads the completed counter
  (0); worker 1 then runs the other two tasks, after which the counter is 2; worker 0 then
  writes 1. The counter has gone down from 2 to 1, and with all three tasks finished (their
  futures ready, nothing queued, nothing active) it stands at 1.
\<close>

theorem completed_counter_loses_updates:
  "map_option (\<lambda>p. total_tasks_completed (stats p))
     (run [Submit 0 (Returns 1), Submit 0 (Returns 2), Submit 0 (Returns 3),
           Work 0, Work 0, Work 0, Work 0, Work 0, Work 0, Work 0, Work 0, Work 0,
           Work 1, Work 1, Work 1, Work 1, Work 1, Work 1, Work 1, Work 1, Work 1, Work 1, Work 1,
           Work 1, Work 1, Work 1, Work 1, Work 1, Work 1, Work 1, Work 1, Work 1, Work 1, Work 1]
        (ThreadPool 2)) = Some 2 \<and>
   map_option (\<lambda>p. (total_tasks_completed (stats p), map state (heap p), workers p, active p, pending p))
     (run [Submit 0 (Returns 1), Submit 0 (Returns 2), Submit 0 (Returns 3),
           Work 0, Work 0, Work 0, Work 0, Work 0, Work 0, Work 0, Work 0, Work 0,
           Work 1, Work 1, Work 1, Work 1, Work 1, Work 1, Work 1, Work 1, Work 1, Work 1, Work 1,
           Work 1, Work 1, Work 1, Work 1, Work 1, Work 1, Work 1, Work 1, Work 1, Work 1, Work 1,
           Work 0, Work 0]
        (ThreadPool 2))
     = Some (1, [Ready_value 1, Ready_value 2, Ready_value 3], [At_pop_front, At_pop_front], 0, 0)"
  by code_simp

section \<open>Every waiting task owns a pending shared state\<close>

lemma mset_concat_update:
  "i < length xs \<Longrightarrow>
   mset (concat (map f (xs[i := x]))) + mset (f (xs ! i)) = mset (concat (map f xs)) + mset (f x)"
proof (induction xs arbitrary: i)
  case Nil
  then show ?case by simp
next
  case (Cons y ys)
  show ?case
  proof (cases i)
    case 0
    then show ?thesis by simp
  next
    case (Suc j)
    then have "j < length ys" using Cons.prems by simp
    from Cons.IH [OF this] show ?thesis
      using Suc by (simp add: ac_simps)
  qed
qed


lemma pq_pop_mset: "q \<noteq> [] \<Longrightarrow> add_mset (pq_top q) (mset (pq_pop q)) = mset q"
  using pq_top_mem [of q] by (simp add: pq_pop_def)

lemma destroy_ready_task: "ready_task h t \<Longrightarrow> destroy_task t h = h"
  by (auto simp: ready_task_def destroy_task_def abandon_def split: option.splits)

lemma action_frame:
  assumes inv: "no_local_work p" and w: "w < num_threads p"
    and pc: "\<not> counting_steal ws" and ni: "\<forall>t start. ws \<noteq> At_invoke t start"
    and rdy: "list_all (ready_task (heap p)) (started ws)"
    and a: "action ws w p = Some (pc', q)"
  shows "heap q = heap p \<and> terminated q = terminated p \<and>
     local_queues q = local_queues p \<and> workers q = workers p \<and>
     mset (global_queue q) + mset (unstarted pc') = mset (global_queue p) + mset (unstarted ws) \<and>
     set (started pc') \<subseteq> set (started ws)"
proof (cases ws)
  case At_pop_front
  have "local_pop_front w p = (None, p)"
    using no_local_work_nth [OF inv w] by (rule local_pop_front_empty)
  then show ?thesis using a At_pop_front by auto
next
  case At_try_pop
  show ?thesis
  proof (cases "global_queue p = []")
    case True
    then show ?thesis
      using a At_try_pop by (auto simp: global_try_pop_def try_pop_def)
  next
    case False
    then show ?thesis
      using a At_try_pop pq_pop_mset [OF False]
      by (auto simp: global_try_pop_def try_pop_def)
  qed
next
  case (At_steal i)
  let ?v = "(w + i + 1) mod num_threads p"
  have "?v < num_threads p"
    using w by simp
  then have "local_steal ?v p = (None, p)"
    using no_local_work_nth [OF inv] local_steal_empty by blast
  then show ?thesis
    using a At_steal by (auto simp: Let_def split: if_splits)
next
  case At_wait_pop
  show ?thesis
  proof (cases "global_queue p = []")
    case True
    then show ?thesis
      using a At_wait_pop by (auto simp: global_wait_pop_def wait_pop_def split: if_splits)
  next
    case False
    then show ?thesis
      using a At_wait_pop pq_pop_mset [OF False]
      by (auto simp: global_wait_pop_def wait_pop_def)
  qed
next
  case (At_dec_active t)
  then have "destroy_task t (heap p) = heap p"
    using rdy by (simp add: destroy_ready_task)
  then show ?thesis
    using a At_dec_active by auto
next
  case (At_invoke t start)
  then show ?thesis using ni by simp
qed (use a pc in \<open>auto split: if_splits\<close>)


lemma waiting_update:
  assumes "w < length (workers q)"
  shows "mset (waiting_tasks (q\<lparr>workers := (workers q)[w := pc']\<rparr>)) + mset (unstarted (workers q ! w))
       = mset (waiting_tasks q) + mset (unstarted pc')"
  using mset_concat_update [OF assms, of unstarted pc']
  by (simp add: waiting_tasks_def ac_simps)

lemma ready_task_update:
  assumes "ready_task h t" "k < length h" "state x \<noteq> Pending"
  shows "ready_task (h[k := x]) t"
  using assms by (auto simp: ready_task_def nth_list_update split: option.splits)

lemma invoke_owned:
  assumes own: "owned p" and w: "w < length (workers p)"
    and ws: "workers p ! w = At_invoke t start"
  shows "\<exists>k. func t = Some k \<and> k < length (heap p) \<and> state (heap p ! k) = Pending \<and>
     action (At_invoke t start) w p =
       Some (At_end t start, p\<lparr>heap := (heap p)[k := (heap p ! k)\<lparr>state := resolve (stored (heap p ! k))\<rparr>]\<rparr>) \<and>
     owned (p\<lparr>heap := (heap p)[k := (heap p ! k)\<lparr>state := resolve (stored (heap p ! k))\<rparr>],
              workers := (workers p)[w := At_end t start]\<rparr>)"
proof -
  have mem: "At_invoke t start \<in> set (workers p)"
    using w ws by (metis nth_mem)
  then have tw: "t \<in> set (waiting_tasks p)"
    by (force simp: waiting_tasks_def)
  have pend: "list_all (pending_task (heap p)) (waiting_tasks p)"
    and dist: "distinct (map func (waiting_tasks p))"
    and rdy: "list_all (\<lambda>ws. list_all (ready_task (heap p)) (started ws)) (workers p)"
    and nt: "\<not> terminated p"
    using own by (simp_all add: owned_def)
  from pend tw have "pending_task (heap p) t"
    by (simp add: list_all_iff)
  then obtain k where k: "func t = Some k" "k < length (heap p)" "state (heap p ! k) = Pending"
    by (auto simp: pending_task_def split: option.splits)
  let ?x = "(heap p ! k)\<lparr>state := resolve (stored (heap p ! k))\<rparr>"
  let ?h = "(heap p)[k := ?x]"
  let ?p' = "p\<lparr>heap := ?h, workers := (workers p)[w := At_end t start]\<rparr>"
  have res: "state ?x \<noteq> Pending"
    by (simp add: resolve_def split: outcome.splits)
  have act: "action (At_invoke t start) w p = Some (At_end t start, p\<lparr>heap := ?h\<rparr>)"
    using k by (simp add: run_task_def invoke_def)
  have "mset (waiting_tasks (p\<lparr>workers := (workers p)[w := At_end t start]\<rparr>)) + mset (unstarted (workers p ! w))
       = mset (waiting_tasks p) + mset (unstarted (At_end t start))"
    using w by (rule waiting_update)
  moreover have "waiting_tasks ?p' = waiting_tasks (p\<lparr>workers := (workers p)[w := At_end t start]\<rparr>)"
    by (simp add: waiting_tasks_def)
  ultimately have ms: "add_mset t (mset (waiting_tasks ?p')) = mset (waiting_tasks p)"
    by (simp add: ws)
  have ms': "mset (t # waiting_tasks ?p') = mset (waiting_tasks p)"
    using ms by simp
  have "mset (map func (t # waiting_tasks ?p')) = mset (map func (waiting_tasks p))"
    by (simp only: mset_map ms')
  from mset_eq_imp_distinct_iff [OF this] dist
  have d': "distinct (func t # map func (waiting_tasks ?p'))"
    by simp
  have "set (t # waiting_tasks ?p') = set (waiting_tasks p)"
    using ms' by (rule mset_eq_setD)
  then have sub: "set (waiting_tasks ?p') \<subseteq> set (waiting_tasks p)"
    by auto
  have pend': "list_all (pending_task ?h) (waiting_tasks ?p')"
    unfolding list_all_iff
  proof
    fix u
    assume u: "u \<in> set (waiting_tasks ?p')"
    then have "pending_task (heap p) u"
      using pend sub by (auto simp: list_all_iff)
    moreover have "func t \<notin> func ` set (waiting_tasks ?p')"
      using d' by simp
    then have "func u \<noteq> Some k"
      using u k(1) by (metis imageI)
    ultimately show "pending_task ?h u"
      by (auto simp: pending_task_def nth_list_update split: option.splits)
  qed
  have rdy': "list_all (\<lambda>ws. list_all (ready_task ?h) (started ws)) ((workers p)[w := At_end t start])"
    unfolding list_all_iff
  proof (intro ballI)
    fix ws' u
    assume "ws' \<in> set ((workers p)[w := At_end t start])" "u \<in> set (started ws')"
    then have "ws' = At_end t start \<or> ws' \<in> set (workers p)"
      using set_update_subset_insert [of "workers p" w "At_end t start"] by auto
    then show "ready_task ?h u"
    proof
      assume "ws' = At_end t start"
      then have "u = t" using \<open>u \<in> set (started ws')\<close> by simp
      then show ?thesis
        using k res by (simp add: ready_task_def)
    next
      assume "ws' \<in> set (workers p)"
      then have "ready_task (heap p) u"
        using rdy \<open>u \<in> set (started ws')\<close> by (auto simp: list_all_iff)
      then show ?thesis
        using k(2) res by (rule ready_task_update)
    qed
  qed
  have "owned ?p'"
    using d' pend' rdy' nt by (simp add: owned_def)
  then show ?thesis
    using k act by blast
qed

lemma worker_step_owned:
  assumes inv: "no_local_work p" and own: "owned p" and s: "worker_step w p = Some p'"
  shows "owned p'"
proof -
  from s have w: "w < length (workers p)"
    by (auto simp: worker_step_def split: if_splits)
  then have wn: "w < num_threads p"
    using inv by (simp add: no_local_work_def)
  from s w obtain pc q where a: "action (workers p ! w) w p = Some (pc, q)"
    and p': "p' = q\<lparr>workers := (workers q)[w := pc]\<rparr>"
    by (auto simp: worker_step_def split: option.splits)
  show ?thesis
  proof (cases "\<exists>t start. workers p ! w = At_invoke t start")
    case True
    then obtain t start where ws: "workers p ! w = At_invoke t start"
      by blast
    from invoke_owned [OF own w ws] a p' show ?thesis
      by (auto simp: ws)
  next
    case False
    have "list_all (\<lambda>ws. \<not> counting_steal ws) (workers p)"
      using inv by (simp add: no_local_work_def)
    then have nc: "\<not> counting_steal (workers p ! w)"
      using w by (simp add: list_all_length)
    have rdy: "list_all (\<lambda>ws. list_all (ready_task (heap p)) (started ws)) (workers p)"
      using own by (simp add: owned_def)
    then have r: "list_all (ready_task (heap p)) (started (workers p ! w))"
      using w by (simp add: list_all_length)
    from action_frame [OF inv wn nc _ r a] False
    have q: "heap q = heap p" "terminated q = terminated p" "local_queues q = local_queues p"
      "workers q = workers p"
      "mset (global_queue q) + mset (unstarted pc) = mset (global_queue p) + mset (unstarted (workers p ! w))"
      "set (started pc) \<subseteq> set (started (workers p ! w))"
      by blast+
    have "mset (waiting_tasks p') + mset (unstarted (workers q ! w))
        = mset (waiting_tasks q) + mset (unstarted pc)"
      unfolding p' using w q(4) by (intro waiting_update) simp
    also have "\<dots> = mset (waiting_tasks p) + mset (unstarted (workers p ! w))"
      using q(3,4,5) by (simp add: waiting_tasks_def ac_simps)
    finally have ms: "mset (waiting_tasks p') = mset (waiting_tasks p)"
      using q(4) by simp
    have "mset (map func (waiting_tasks p')) = mset (map func (waiting_tasks p))"
      by (simp only: mset_map ms)
    from mset_eq_imp_distinct_iff [OF this] own
    have d: "distinct (map func (waiting_tasks p'))"
      by (simp add: owned_def)
    have "set (waiting_tasks p') = set (waiting_tasks p)"
      using ms by (rule mset_eq_setD)
    then have pe: "list_all (pending_task (heap p')) (waiting_tasks p')"
      using own q(1) by (simp add: owned_def list_all_iff p')
    have rd: "list_all (\<lambda>ws. list_all (ready_task (heap p')) (started ws)) (workers p')"
      unfolding list_all_iff
    proof (intro ballI)
      fix ws' u
      assume m: "ws' \<in> set (workers p')" "u \<in> set (started ws')"
      then have "ws' = pc \<or> ws' \<in> set (workers p)"
        using set_update_subset_insert [of "workers p" w pc] q(4) by (auto simp: p')
      then have "ready_task (heap p) u"
        using m(2) q(6) r rdy by (auto simp: list_all_iff)
      then show "ready_task (heap p') u"
        using q(1) by (simp add: p')
    qed
    show ?thesis
      using d pe rd own q(2) by (simp add: owned_def p')
  qed
qed


lemma owned_init: "owned (ThreadPool n)"
  by (simp add: owned_def ThreadPool_def Let_def waiting_tasks_def list_all_iff)

lemma pending_task_append: "pending_task h t \<Longrightarrow> pending_task (h @ [x]) t"
  by (auto simp: pending_task_def nth_append split: option.splits)

lemma ready_task_append: "ready_task h t \<Longrightarrow> ready_task (h @ [x]) t"
  by (auto simp: ready_task_def nth_append split: option.splits)

lemma submit_owned:
  assumes own: "owned p" and s: "submit_priority prio f p = Inr (result, p')"
  shows "owned p'"
proof -
  let ?t = "\<lparr>func = Some (length (heap p)), priority = prio\<rparr>"
  let ?x = "\<lparr>stored = f, state = Pending\<rparr>"
  from s have p': "p' = p\<lparr>heap := heap p @ [?x], global_queue := global_queue p @ [?t],
      cv_waiters := notify_one (cv_waiters p),
      stats := (stats p)\<lparr>total_tasks_submitted := total_tasks_submitted (stats p) + 1\<rparr>\<rparr>"
    by (auto simp: submit_priority_def Let_def push_def split: if_splits)
  have pend: "list_all (pending_task (heap p)) (waiting_tasks p)"
    and dist: "distinct (map func (waiting_tasks p))"
    and rdy: "list_all (\<lambda>ws. list_all (ready_task (heap p)) (started ws)) (workers p)"
    and nt: "\<not> terminated p"
    using own by (simp_all add: owned_def)
  have w': "waiting_tasks p' = global_queue p @ [?t] @ concat (local_queues p) @ concat (map unstarted (workers p))"
    by (simp add: waiting_tasks_def p')
  then have ms: "mset (waiting_tasks p') = mset (?t # waiting_tasks p)"
    by (simp add: waiting_tasks_def)
  have fresh: "func ?t \<notin> func ` set (waiting_tasks p)"
  proof
    assume "func ?t \<in> func ` set (waiting_tasks p)"
    then obtain u where u: "u \<in> set (waiting_tasks p)" "func u = Some (length (heap p))"
      by auto
    then have "pending_task (heap p) u"
      using pend by (simp add: list_all_iff)
    then show False
      using u(2) by (simp add: pending_task_def)
  qed
  have "mset (map func (waiting_tasks p')) = mset (map func (?t # waiting_tasks p))"
    by (simp only: mset_map ms)
  from mset_eq_imp_distinct_iff [OF this] dist fresh
  have d: "distinct (map func (waiting_tasks p'))"
    by simp
  have "set (waiting_tasks p') = set (?t # waiting_tasks p)"
    using ms by (rule mset_eq_setD)
  moreover have "pending_task (heap p @ [?x]) ?t"
    by (simp add: pending_task_def)
  ultimately have pe: "list_all (pending_task (heap p')) (waiting_tasks p')"
    using pend by (auto simp: list_all_iff p' intro: pending_task_append)
  have rd: "list_all (\<lambda>ws. list_all (ready_task (heap p')) (started ws)) (workers p')"
    using rdy by (auto simp: list_all_iff p' intro: ready_task_append)
  show ?thesis
    using d pe rd nt by (simp add: owned_def p')
qed

lemma shutdown_now_owned:
  assumes own: "owned p"
  shows "owned (shutdown_now p)"
proof -
  let ?gone = "global_queue p @ concat (local_queues p)"
  let ?h = "discard ?gone (heap p)"
  let ?kept = "concat (map unstarted (workers p))"
  have pend: "list_all (pending_task (heap p)) (waiting_tasks p)"
    and dist: "distinct (map func (waiting_tasks p))"
    and rdy: "list_all (\<lambda>ws. list_all (ready_task (heap p)) (started ws)) (workers p)"
    and nt: "\<not> terminated p"
    using own by (simp_all add: owned_def)
  have wt: "waiting_tasks p = ?gone @ ?kept"
    by (simp add: waiting_tasks_def)
  have w': "waiting_tasks (shutdown_now p) = ?kept"
    by (simp add: waiting_tasks_def shutdown_now_eq)
  have d: "distinct (map func ?kept)"
    using dist by (simp add: wt)
  have "distinct (map func ?gone @ map func ?kept)"
    using dist by (simp add: wt)
  then have "set (map func ?gone) \<inter> set (map func ?kept) = {}"
    by (simp only: distinct_append)
  then have disj: "func ` set ?gone \<inter> func ` set ?kept = {}"
    by (simp only: set_map)
  have pe: "list_all (pending_task ?h) ?kept"
    unfolding list_all_iff
  proof
    fix u
    assume u: "u \<in> set ?kept"
    then have "pending_task (heap p) u"
      using pend by (simp add: wt list_all_iff)
    then obtain k where k: "func u = Some k" "k < length (heap p)" "state (heap p ! k) = Pending"
      by (auto simp: pending_task_def split: option.splits)
    have "Some k \<notin> func ` set ?gone"
      using disj u k(1) by (metis disjoint_iff imageI)
    then show "pending_task ?h u"
      using k by (simp add: pending_task_def discard_nth)
  qed
  have rd: "list_all (\<lambda>ws. list_all (ready_task ?h) (started ws)) (workers p)"
    using rdy by (auto simp: list_all_iff ready_task_def discard_nth split: option.splits)
  show ?thesis
    using d pe rd nt by (simp add: owned_def w') (simp add: shutdown_now_eq)
qed

lemma owned_cong:
  assumes "owned p" and "waiting_tasks p' = waiting_tasks p" and "heap p' = heap p"
    and "workers p' = workers p" and "terminated p' = terminated p"
  shows "owned p'"
  using assms by (simp add: owned_def)

lemma step_sound:
  assumes inv: "no_local_work p" and own: "owned p" and s: "step e p = Some p'"
  shows "owned p'"
proof (cases e)
  case (Submit prio f)
  show ?thesis
  proof (cases "submit_priority prio f p")
    case (Inl err)
    then show ?thesis
      using s own Submit by (simp add: step_def split: if_splits)
  next
    case (Inr r)
    then obtain result q where "submit_priority prio f p = Inr (result, q)"
      by (cases r) simp
    then show ?thesis
      using s Submit submit_owned [OF own] by (auto simp: step_def split: if_splits)
  qed
next
  case Shutdown
  then have "p' = p\<lparr>stop := True, cv_waiters := notify_all (cv_waiters p)\<rparr>"
    using s by (auto simp: step_def shutdown_def Let_def split: if_splits)
  then show ?thesis
    using own by (intro owned_cong [OF own]) (simp_all add: waiting_tasks_def)
next
  case Shutdown_now
  then show ?thesis
    using s shutdown_now_owned [OF own] by (auto simp: step_def split: if_splits)
next
  case (Tick d)
  then have "p' = p\<lparr>clock := clock p + d\<rparr>"
    using s by (simp add: step_def split: if_splits)
  then show ?thesis
    using own by (intro owned_cong [OF own]) (simp_all add: waiting_tasks_def)
next
  case (Work w)
  then have "worker_step w p = Some p'"
    using s by (simp add: step_def split: if_splits)
  with inv own show ?thesis
    by (rule worker_step_owned)
next
  case (Wake w)
  then have "p' = p\<lparr>cv_waiters := removeAll w (cv_waiters p)\<rparr>"
    using s by (auto simp: step_def split: if_splits)
  then show ?thesis
    using own by (intro owned_cong [OF own]) (simp_all add: waiting_tasks_def)
qed

lemma run_sound:
  "no_local_work p \<Longrightarrow> owned p \<Longrightarrow> run es p = Some p' \<Longrightarrow> no_local_work p' \<and> owned p'"
proof (induction es arbitrary: p)
  case Nil
  then show ?case by simp
next
  case (Cons e es)
  from Cons.prems(3) obtain q where q: "step e p = Some q" "run es q = Some p'"
    by (auto split: option.splits)
  have "no_local_work q"
    using Cons.prems(1) q(1) by (rule step_no_local_work)
  moreover have "owned q"
    using Cons.prems(1,2) q(1) by (rule step_sound)
  ultimately show ?case
    using q(2) by (rule Cons.IH)
qed

lemma reachable_owned:
  assumes "run es (ThreadPool n) = Some p"
  shows "owned p"
  using run_sound [OF no_local_work_init owned_init assms] by simp

section \<open>A failing task\<close>

lemma run_task_pending:
  assumes "func t = Some k" "k < length h" "state (h ! k) = Pending"
  shows "run_task t h = Inr (h[k := (h ! k)\<lparr>state := resolve (stored (h ! k))\<rparr>])"
  using assms by (simp add: run_task_def invoke_def)

lemma destroy_task_ready:
  assumes "func t = Some k" "k < length h" "state (h ! k) \<noteq> Pending"
  shows "destroy_task t h = h"
  using assms by (simp add: destroy_task_def abandon_def)

lemma execute_pending:
  assumes "func t = Some k" "k < length (heap p)" "state (heap p ! k) = Pending"
  shows "execute t d p =
     Some (p\<lparr>heap := (heap p)[k := (heap p ! k)\<lparr>state := resolve (stored (heap p ! k))\<rparr>],
             clock := clock p + d,
             stats := (stats p)\<lparr>total_execution_time := total_execution_time (stats p) + d,
                                 total_tasks_completed := total_tasks_completed (stats p) + 1\<rparr>\<rparr>)"
proof -
  let ?h = "(heap p)[k := (heap p ! k)\<lparr>state := resolve (stored (heap p ! k))\<rparr>]"
  have r: "run_task t (heap p) = Inr ?h"
    using assms by (rule run_task_pending)
  have "resolve f \<noteq> Pending" for f
    by (cases f) (simp_all add: resolve_def)
  then have "state (?h ! k) \<noteq> Pending"
    using assms(2) by simp
  moreover have "k < length ?h"
    using assms(2) by simp
  ultimately have d: "destroy_task t ?h = ?h"
    using assms(1) destroy_task_ready by blast
  show ?thesis
    by (simp add: execute_def Let_def r d)
qed

lemma captured_when_pending:
  assumes "fetch worker_id p = Some (Some t, p1)" and "func t = Some k"
    and "k < length (heap p1)" and "state (heap p1 ! k) = Pending"
    and "stored (heap p1 ! k) = Throws e"
  shows "\<exists>p'. worker_iteration worker_id d p = Continue p' \<and>
      state (heap p' ! k) = Ready_failure (Task_failure e) \<and>
      future_get k (heap p') = Some (Inl (Task_failure e)) \<and>
      terminated p' = terminated p1 \<and> stop p' = stop p1 \<and> workers p' = workers p1 \<and>
      global_queue p' = global_queue p1 \<and> local_queues p' = local_queues p1 \<and>
      active_tasks p' = active_tasks p1 \<and>
      total_tasks_completed (stats p') = total_tasks_completed (stats p1) + 1 \<and>
      length (heap p') = length (heap p1) \<and>
      (\<forall>j < length (heap p1). j \<noteq> k \<longrightarrow> heap p' ! j = heap p1 ! j) \<and>
      action (At_invoke t start) worker_id p1 =
        Some (At_end t start, p1\<lparr>heap := heap p'\<rparr>)"
proof -
  let ?h = "(heap p1)[k := (heap p1 ! k)\<lparr>state := Ready_failure (Task_failure e)\<rparr>]"
  let ?p' = "p1\<lparr>heap := ?h, clock := clock p1 + d,
             stats := (stats p1)\<lparr>total_execution_time := total_execution_time (stats p1) + d,
                                 total_tasks_completed := total_tasks_completed (stats p1) + 1\<rparr>\<rparr>"
  have ex: "execute t d p1 = Some ?p'"
    using execute_pending [OF assms(2,3,4), of d] assms(5) by (simp add: resolve_def)
  have it: "worker_iteration worker_id d p = Continue ?p'"
    by (simp add: worker_iteration_def assms(1) ex)
  have rt: "run_task t (heap p1) = Inr ?h"
    using run_task_pending [OF assms(2,3,4)] assms(5) by (simp add: resolve_def)
  show ?thesis
    using it assms(3) rt by (intro exI [of _ ?p']) (simp add: future_get_def)
qed

lemma fetch_without_local_work:
  assumes inv: "no_local_work p" and w: "w < num_threads p"
  shows "fetch w p =
     (if global_queue p \<noteq> []
      then Some (Some (pq_top (global_queue p)), p\<lparr>global_queue := pq_pop (global_queue p)\<rparr>)
      else if stop p then Some (None, p) else None)"
proof -
  have own: "local_queues p ! w = []"
    using inv w by (rule no_local_work_nth)
  have "local_queues p ! v = []" if "v \<in> set (victims w (num_threads p))" for v
    using that victims_set [OF w] no_local_work_nth [OF inv] by auto
  then have "find (\<lambda>v. local_queues p ! v \<noteq> []) (victims w (num_threads p)) = None"
    by (simp only: find_None_iff) blast
  then show ?thesis
    using own by (simp add: fetch_spec [OF w] spec_fetch_def)
qed

text \<open>
  C6. In any state that a pool reaches from its construction, a worker fetches a task
  whose callable throws. Then the iteration of \<open>worker_loop\<close> ends with \<open>Continue\<close>: no
  exception leaves the worker thread (\<^verbatim>\<open>std::terminate\<close> is not called), the thread does not
  end and goes on to its next iteration. The failure is stored in the task's shared state,
  where \<^verbatim>\<open>get\<close> on the future rethrows it; apart from that one shared state the pool is as
  after any completed task (the completed counter is one higher, the active counter, the
  stop flag, the queues and the other shared states are as they were). Among concurrently
  running threads the worker likewise moves from line 415 on to line 417.
\<close>

theorem failing_task_is_captured:
  assumes reach: "run es (ThreadPool n) = Some p" and w: "worker_id < num_threads p"
    and f: "fetch worker_id p = Some (Some t, p1)"
    and k: "func t = Some k" and thr: "stored (heap p ! k) = Throws e"
  shows "\<exists>p'. worker_iteration worker_id d p = Continue p' \<and>
      state (heap p' ! k) = Ready_failure (Task_failure e) \<and>
      future_get k (heap p') = Some (Inl (Task_failure e)) \<and>
      \<not> terminated p' \<and> stop p' = stop p1 \<and> workers p' = workers p1 \<and>
      global_queue p' = global_queue p1 \<and> local_queues p' = local_queues p1 \<and>
      active_tasks p' = active_tasks p1 \<and>
      total_tasks_completed (stats p') = total_tasks_completed (stats p1) + 1 \<and>
      length (heap p') = length (heap p1) \<and>
      (\<forall>j < length (heap p1). j \<noteq> k \<longrightarrow> heap p' ! j = heap p1 ! j) \<and>
      action (At_invoke t start) worker_id p1 =
        Some (At_end t start, p1\<lparr>heap := heap p'\<rparr>)"
proof -
  have inv: "no_local_work p" and own: "owned p"
    using run_sound [OF no_local_work_init owned_init reach] by simp_all
  from f have ne: "global_queue p \<noteq> []"
    and t: "t = pq_top (global_queue p)"
    and p1: "p1 = p\<lparr>global_queue := pq_pop (global_queue p)\<rparr>"
    unfolding fetch_without_local_work [OF inv w] by (auto split: if_splits)
  have "t \<in> set (waiting_tasks p)"
    using pq_top_mem [OF ne] by (simp add: t waiting_tasks_def)
  then have "pending_task (heap p) t"
    using own by (simp add: owned_def list_all_iff)
  then have pe: "k < length (heap p1)" "state (heap p1 ! k) = Pending"
    using k by (simp_all add: pending_task_def p1)
  have th: "stored (heap p1 ! k) = Throws e"
    using thr by (simp add: p1)
  have nt: "\<not> terminated p1"
    using own by (simp add: owned_def p1)
  from captured_when_pending [OF f k pe th, of d start] nt
  show ?thesis
    by auto
qed

theorem failing_task_is_captured_witness:
  "run [Submit 0 (Throws ''boom''), Submit 1 (Returns 7)] (ThreadPool 1)
     = Some ((ThreadPool 1)\<lparr>global_queue := [\<lparr>func = Some 0, priority = 0\<rparr>, \<lparr>func = Some 1, priority = 1\<rparr>],
          heap := [\<lparr>stored = Throws ''boom'', state = Pending\<rparr>, \<lparr>stored = Returns 7, state = Pending\<rparr>],
          stats := \<lparr>total_tasks_submitted = 2, total_tasks_completed = 0,
                    total_tasks_stolen = 0, total_execution_time = 0\<rparr>\<rparr>) \<and>
   worker_iteration 0 5
       ((ThreadPool 1)\<lparr>global_queue := [\<lparr>func = Some 0, priority = 0\<rparr>, \<lparr>func = Some 1, priority = 1\<rparr>],
          heap := [\<lparr>stored = Throws ''boom'', state = Pending\<rparr>, \<lparr>stored = Returns 7, state = Pending\<rparr>],
          stats := \<lparr>total_tasks_submitted = 2, total_tasks_completed = 0,
                    total_tasks_stolen = 0, total_execution_time = 0\<rparr>\<rparr>)
     = Continue ((ThreadPool 1)\<lparr>global_queue := [\<lparr>func = Some 1, priority = 1\<rparr>],
          heap := [\<lparr>stored = Throws ''boom'', state = Ready_failure (Task_failure ''boom'')\<rparr>,
                   \<lparr>stored = Returns 7, state = Pending\<rparr>],
          clock := 5,
          stats := \<lparr>total_tasks_submitted = 2, total_tasks_completed = 1,
                    total_tasks_stolen = 0, total_execution_time = 5\<rparr>\<rparr>) \<and>
   worker_iteration 0 5
       ((ThreadPool 1)\<lparr>global_queue := [\<lparr>func = Some 1, priority = 1\<rparr>],
          heap := [\<lparr>stored = Throws ''boom'', state = Ready_failure (Task_failure ''boom'')\<rparr>,
                   \<lparr>stored = Returns 7, state = Pending\<rparr>],
          clock := 5,
          stats := \<lparr>total_tasks_submitted = 2, total_tasks_completed = 1,
                    total_tasks_stolen = 0, total_execution_time = 5\<rparr>\<rparr>)
     = Continue ((ThreadPool 1)\<lparr>global_queue := [],
          heap := [\<lparr>stored = Throws ''boom'', state = Ready_failure (Task_failure ''boom'')\<rparr>,
                   \<lparr>stored = Returns 7, state = Ready_value 7\<rparr>],
          clock := 10,
          stats := \<lparr>total_tasks_submitted = 2, total_tasks_completed = 2,
                    total_tasks_stolen = 0, total_execution_time = 10\<rparr>\<rparr>) \<and>
   (\<exists>p'. worker_iteration 0 5
       ((ThreadPool 1)\<lparr>global_queue := [\<lparr>func = Some 0, priority = 0\<rparr>, \<lparr>func = Some 1, priority = 1\<rparr>],
          heap := [\<lparr>stored = Throws ''boom'', state = Pending\<rparr>, \<lparr>stored = Returns 7, state = Pending\<rparr>],
          stats := \<lparr>total_tasks_submitted = 2, total_tasks_completed = 0,
                    total_tasks_stolen = 0, total_execution_time = 0\<rparr>\<rparr>) = Continue p' \<and>
       future_get 0 (heap p') = Some (Inl (Task_failure ''boom'')))"
proof -
  let ?t0 = "\<lparr>func = Some 0, priority = 0\<rparr>"
  let ?t1 = "\<lparr>func = Some 1, priority = 1\<rparr>"
  let ?h = "[\<lparr>stored = Throws ''boom'', state = Pending\<rparr>, \<lparr>stored = Returns 7, state = Pending\<rparr>]"
  let ?p = "(ThreadPool 1)\<lparr>global_queue := [?t0, ?t1], heap := ?h,
     stats := \<lparr>total_tasks_submitted = 2, total_tasks_completed = 0,
                total_tasks_stolen = 0, total_execution_time = 0\<rparr>\<rparr>"
  let ?p1 = "?p\<lparr>global_queue := [?t1]\<rparr>"
  have run: "run [Submit 0 (Throws ''boom''), Submit 1 (Returns 7)] (ThreadPool 1) = Some ?p"
    by code_simp
  have f: "fetch 0 ?p = Some (Some ?t0, ?p1)"
    by (simp add: fetch_def local_pop_front_def pop_front_def global_try_pop_def try_pop_def
        pq_top_def pq_pop_def task_less_def ThreadPool_def)
  have "\<exists>p'. worker_iteration 0 5 ?p = Continue p' \<and>
       future_get 0 (heap p') = Some (Inl (Task_failure ''boom''))"
    using failing_task_is_captured [OF run _ f, of 0 "''boom''" 5 0] by (auto simp: ThreadPool_def)
  moreover have "worker_iteration 0 5 ?p
     = Continue ((ThreadPool 1)\<lparr>global_queue := [?t1],
          heap := [\<lparr>stored = Throws ''boom'', state = Ready_failure (Task_failure ''boom'')\<rparr>,
                   \<lparr>stored = Returns 7, state = Pending\<rparr>],
          clock := 5,
          stats := \<lparr>total_tasks_submitted = 2, total_tasks_completed = 1,
                    total_tasks_stolen = 0, total_execution_time = 5\<rparr>\<rparr>)"
    by (simp add: worker_iteration_def fetch_def local_pop_front_def pop_front_def
        global_try_pop_def try_pop_def pq_top_def pq_pop_def task_less_def
        execute_def Let_def run_task_def invoke_def resolve_def
        destroy_task_def abandon_def ThreadPool_def)
  moreover have "worker_iteration 0 5
       ((ThreadPool 1)\<lparr>global_queue := [?t1],
          heap := [\<lparr>stored = Throws ''boom'', state = Ready_failure (Task_failure ''boom'')\<rparr>,
                   \<lparr>stored = Returns 7, state = Pending\<rparr>],
          clock := 5,
          stats := \<lparr>total_tasks_submitted = 2, total_tasks_completed = 1,
                    total_tasks_stolen = 0, total_execution_time = 5\<rparr>\<rparr>)
     = Continue ((ThreadPool 1)\<lparr>global_queue := [],
          heap := [\<lparr>stored = Throws ''boom'', state = Ready_failure (Task_failure ''boom'')\<rparr>,
                   \<lparr>stored = Returns 7, state = Ready_value 7\<rparr>],
          clock := 10,
          stats := \<lparr>total_tasks_submitted = 2, total_tasks_completed = 2,
                    total_tasks_stolen = 0, total_execution_time = 10\<rparr>\<rparr>)"
    by (simp add: worker_iteration_def fetch_def local_pop_front_def pop_front_def
        global_try_pop_def try_pop_def pq_top_def pq_pop_def task_less_def
        execute_def Let_def run_task_def invoke_def resolve_def
        destroy_task_def abandon_def ThreadPool_def)
  ultimately show ?thesis
    using run by blast
qed

section \<open>A worker running alone is one schedule of the concurrent threads\<close>

text \<open>
  The two readings of \<^verbatim>\<open>worker_loop\<close> agree: whatever one iteration of a worker running
  alone (\<open>worker_iteration\<close>) does to the pool, the concurrent threads do under the schedule
  in which only that worker steps and the clock ticks once, by the running time of the
  body, provided no other thread holds the mutex of the global queue. A blocked iteration is
  a worker that sleeps on the condition variable inside \<^verbatim>\<open>wait_pop\<close> and cannot step.
\<close>

lemma run_append:
  "run (es @ fs) p = (case run es p of None \<Rightarrow> None | Some q \<Rightarrow> run fs q)"
  by (induction es arbitrary: p) (auto split: option.splits)

lemma action_workers_indep:
  "action ws w (p\<lparr>workers := x\<rparr>) =
     (case action ws w p of None \<Rightarrow> None | Some (pc, q) \<Rightarrow> Some (pc, q\<lparr>workers := x\<rparr>))"
  by (cases ws)
     (auto simp: local_pop_front_def global_try_pop_def local_steal_def global_wait_pop_def Let_def
       split: option.splits prod.splits sum.splits)

lemma action_keeps_workers:
  "action ws w p = Some (pc, q) \<Longrightarrow> workers q = workers p"
  by (cases ws)
     (auto simp: local_pop_front_def global_try_pop_def local_steal_def global_wait_pop_def Let_def
       split: option.splits prod.splits sum.splits if_splits)

lemma step_unlocked:
  assumes w: "w < length (workers p)" and oth: "others_free w p"
  shows "\<not> (locks_queue (Work w) (placed w pc p) \<and> \<not> queue_mutex_free (placed w pc p))"
proof
  assume l: "locks_queue (Work w) (placed w pc p) \<and> \<not> queue_mutex_free (placed w pc p)"
  then have pc: "\<not> holds_queue_mutex pc"
    using w by (auto simp: placed_def)
  have "\<not> holds_queue_mutex ((workers p)[w := pc] ! v)" if "v < length (workers p)" for v
    using that oth pc by (cases "v = w") (simp_all add: others_free_def)
  then have "queue_mutex_free (placed w pc p)"
    by (simp add: queue_mutex_free_def placed_def list_all_length)
  with l show False
    by simp
qed

lemma step_placed:
  assumes w: "w < length (workers p)" and nt: "\<not> terminated p" and oth: "others_free w p"
    and a: "action pc w p = Some (pc', q)"
  shows "step (Work w) (placed w pc p) = Some (placed w pc' q)"
proof -
  have wq: "workers q = workers p"
    using a by (rule action_keeps_workers)
  have "action pc w (placed w pc p) = Some (pc', q\<lparr>workers := (workers p)[w := pc]\<rparr>)"
    unfolding placed_def action_workers_indep by (simp add: a)
  moreover have "client_step (Work w) (placed w pc p) = worker_step w (placed w pc p)"
    by simp
  moreover have "\<not> terminated (placed w pc p)"
    using nt by (simp add: placed_def)
  ultimately show ?thesis
    using w step_unlocked [OF w oth, of pc]
    by (simp add: step_def worker_step_def) (simp add: placed_def wq)
qed


lemma schedule_step:
  assumes "w < length (workers p)" and "\<not> terminated p" and "others_free w p"
    and "action pc w p = Some (pc', q)" and "Work w \<in> S"
    and "\<exists>es. set es \<subseteq> S \<and> run es (placed w pc' q) = Some r"
  shows "\<exists>es. set es \<subseteq> S \<and> run es (placed w pc p) = Some r"
proof -
  from assms(6) obtain es where es: "set es \<subseteq> S" "run es (placed w pc' q) = Some r"
    by blast
  have "run (Work w # es) (placed w pc p) = Some r"
    using step_placed [OF assms(1,2,3,4)] es(2) by simp
  moreover have "set (Work w # es) \<subseteq> S"
    using es(1) assms(5) by simp
  ultimately show ?thesis
    by blast
qed

lemma schedule_done: "\<exists>es. set es \<subseteq> S \<and> run es p = Some p"
  by (rule exI [of _ "[]"]) simp

lemma local_steal_keeps:
  "local_steal v p = (r, q) \<Longrightarrow>
   workers q = workers p \<and> terminated q = terminated p \<and> num_threads q = num_threads p"
  by (auto simp: local_steal_def split: prod.splits)

lemma steal_loop_schedule:
  "w < length (workers p) \<Longrightarrow> \<not> terminated p \<Longrightarrow> others_free w p \<Longrightarrow>
   \<exists>es. set es \<subseteq> {Work w} \<and>
     run es (placed w (At_steal i) p) =
       Some (case try_steal_loop i w p of
               (None, p') \<Rightarrow> placed w At_wait_pop p'
             | (Some t, p') \<Rightarrow> placed w (At_inc_active t) p')"
proof (induction i w p rule: try_steal_loop.induct)
  case (1 i w p)
  let ?v = "(w + i + 1) mod num_threads p"
  show ?case
  proof (cases "i < num_threads p")
    case False
    then have "try_steal_loop i w p = (None, p)"
      by (subst try_steal_loop.simps) simp
    moreover have "action (At_steal i) w p = Some (At_wait_pop, p)"
      using False by simp
    ultimately show ?thesis
      using schedule_step [OF "1.prems" _ _ schedule_done, of "At_steal i" At_wait_pop p "{Work w}"]
      by simp
  next
    case lt: True
    show ?thesis
    proof (cases "?v = w")
      case True
      have eq: "try_steal_loop i w p = try_steal_loop (i + 1) w p"
        using lt True by (subst try_steal_loop.simps) (simp add: Let_def)
      have a: "action (At_steal i) w p = Some (At_steal (i + 1), p)"
        using lt True by (simp add: Let_def)
      have "\<exists>es. set es \<subseteq> {Work w} \<and>
          run es (placed w (At_steal (i + 1)) p) =
            Some (case try_steal_loop (i + 1) w p of
               (None, p') \<Rightarrow> placed w At_wait_pop p'
             | (Some t, p') \<Rightarrow> placed w (At_inc_active t) p')"
        using "1.IH"(1) [OF lt refl True] "1.prems" by simp
      then show ?thesis
        unfolding eq using schedule_step [OF "1.prems" a] by blast
    next
      case False
      obtain r q where ls: "local_steal ?v p = (r, q)"
        by (cases "local_steal ?v p")
      note keep = local_steal_keeps [OF ls]
      have wq: "w < length (workers q)" "\<not> terminated q" "others_free w q"
        using keep "1.prems" by (simp_all add: others_free_def)
      show ?thesis
      proof (cases r)
        case None
        have eq: "try_steal_loop i w p = try_steal_loop (i + 1) w q"
          using lt False ls None by (subst try_steal_loop.simps) (simp add: Let_def)
        have a: "action (At_steal i) w p = Some (At_steal (i + 1), q)"
          using lt False ls None by (simp add: Let_def)
        have "\<exists>es. set es \<subseteq> {Work w} \<and>
          run es (placed w (At_steal (i + 1)) q) =
            Some (case try_steal_loop (i + 1) w q of
               (None, p') \<Rightarrow> placed w At_wait_pop p'
             | (Some t, p') \<Rightarrow> placed w (At_inc_active t) p')"
          using "1.IH"(2) [OF lt refl False ls [symmetric] None] wq by simp
        then show ?thesis
          unfolding eq using schedule_step [OF "1.prems" a] by blast
      next
        case (Some t)
        have eq: "try_steal_loop i w p = (Some t, count_stolen q)"
          using lt False ls Some by (subst try_steal_loop.simps) (simp add: Let_def)
        have a1: "action (At_steal i) w p = Some (At_stolen_load t, q)"
          using lt False ls Some by (simp add: Let_def)
        have a2: "action (At_stolen_load t) w q =
            Some (At_stolen_store t (total_tasks_stolen (stats q)), q)"
          by simp
        have a3: "action (At_stolen_store t (total_tasks_stolen (stats q))) w q =
            Some (At_inc_active t, count_stolen q)"
          by (simp add: count_stolen_def)
        have "\<exists>es. set es \<subseteq> {Work w} \<and> run es (placed w (At_stolen_store t (total_tasks_stolen (stats q))) q)
             = Some (placed w (At_inc_active t) (count_stolen q))"
          using schedule_step [OF wq a3 _ schedule_done] by simp
        then have "\<exists>es. set es \<subseteq> {Work w} \<and> run es (placed w (At_stolen_load t) q)
             = Some (placed w (At_inc_active t) (count_stolen q))"
          using schedule_step [OF wq a2] by blast
        then have "\<exists>es. set es \<subseteq> {Work w} \<and> run es (placed w (At_steal i) p)
             = Some (placed w (At_inc_active t) (count_stolen q))"
          using schedule_step [OF "1.prems" a1] by blast
        then show ?thesis
          by (simp add: eq)
      qed
    qed
  qed
qed


lemma schedule_trans:
  assumes "\<exists>es. set es \<subseteq> S \<and> run es p = Some q" and "\<exists>es. set es \<subseteq> S \<and> run es q = Some r"
  shows "\<exists>es. set es \<subseteq> S \<and> run es p = Some r"
proof -
  from assms obtain es fs where "set es \<subseteq> S" "run es p = Some q" "set fs \<subseteq> S" "run fs q = Some r"
    by blast
  then have "set (es @ fs) \<subseteq> S \<and> run (es @ fs) p = Some r"
    by (simp add: run_append)
  then show ?thesis
    by blast
qed

lemma step_placed_eq:
  assumes "w < length (workers p)" and "\<not> terminated p" and "others_free w p"
  shows "step (Work w) (placed w pc p) =
     (case action pc w p of None \<Rightarrow> None | Some (pc', q) \<Rightarrow> Some (placed w pc' q))"
proof (cases "action pc w p")
  case None
  then have "action pc w (placed w pc p) = None"
    unfolding placed_def action_workers_indep by simp
  moreover have "client_step (Work w) (placed w pc p) = worker_step w (placed w pc p)"
    by simp
  ultimately have "client_step (Work w) (placed w pc p) = None"
    using assms(1) by (simp add: worker_step_def) (simp add: placed_def)
  then show ?thesis
    using None by (simp add: step_def)
next
  case (Some r)
  then obtain pc' q where "action pc w p = Some (pc', q)"
    by (cases r) simp
  then show ?thesis
    using step_placed [OF assms] by simp
qed

lemma tick_placed:
  "\<not> terminated p \<Longrightarrow>
   step (Tick d) (placed w pc p) = Some (placed w pc (p\<lparr>clock := clock p + d\<rparr>))"
  by (simp add: step_def placed_def)

lemma placed_terminated: "terminated (placed w pc p) = terminated p"
  by (simp add: placed_def)

lemma step_terminated: "terminated p \<Longrightarrow> step e p = None"
  by (simp add: step_def)

lemma others_free_update:
  "others_free w (p\<lparr>active_tasks := a\<rparr>) = others_free w p"
  "others_free w (p\<lparr>heap := h\<rparr>) = others_free w p"
  "others_free w (p\<lparr>clock := c\<rparr>) = others_free w p"
  "others_free w (p\<lparr>stats := s\<rparr>) = others_free w p"
  "others_free w (p\<lparr>terminated := b\<rparr>) = others_free w p"
  by (simp_all add: others_free_def)

lemma execute_schedule:
  assumes w: "w < length (workers p)" and nt: "\<not> terminated p" and oth: "others_free w p"
  shows "run [Work w, Work w, Work w, Tick d, Work w, Work w, Work w, Work w, Work w, Work w]
           (placed w (At_inc_active t) p) =
         (case execute t d p of None \<Rightarrow> None | Some p' \<Rightarrow> Some (placed w At_pop_front p'))"
proof (cases "run_task t (heap p)")
  case (Inl e)
  then show ?thesis
    using w nt oth
    by (simp add: step_placed_eq execute_def Let_def step_terminated placed_terminated
        others_free_update)
next
  case (Inr h)
  then show ?thesis
    using w nt oth
    by (simp add: step_placed_eq tick_placed execute_def Let_def others_free_update)
qed


lemma try_steal_loop_keeps:
  "try_steal_loop i w p = (r, q) \<Longrightarrow> workers q = workers p \<and> terminated q = terminated p"
proof (induction i w p rule: try_steal_loop.induct)
  case (1 i w p)
  let ?v = "(w + i + 1) mod num_threads p"
  show ?case
  proof (cases "i < num_threads p")
    case False
    then show ?thesis
      using "1.prems" by (subst (asm) try_steal_loop.simps) simp
  next
    case lt: True
    show ?thesis
    proof (cases "?v = w")
      case True
      then have "try_steal_loop (i + 1) w p = (r, q)"
        using "1.prems" lt by (subst (asm) try_steal_loop.simps) (simp add: Let_def)
      then show ?thesis
        using "1.IH"(1) [OF lt refl True] by simp
    next
      case False
      obtain r' q' where ls: "local_steal ?v p = (r', q')"
        by (cases "local_steal ?v p")
      note keep = local_steal_keeps [OF ls]
      show ?thesis
      proof (cases r')
        case None
        then have "try_steal_loop (i + 1) w q' = (r, q)"
          using "1.prems" lt False ls by (subst (asm) try_steal_loop.simps) (simp add: Let_def)
        then show ?thesis
          using "1.IH"(2) [OF lt refl False ls [symmetric] None] keep by simp
      next
        case (Some t)
        then have "q = count_stolen q'"
          using "1.prems" lt False ls by (subst (asm) try_steal_loop.simps) (simp add: Let_def)
        then show ?thesis
          using keep by (simp add: count_stolen_def)
      qed
    qed
  qed
qed

lemma local_pop_front_keeps:
  "local_pop_front w p = (r, q) \<Longrightarrow> workers q = workers p \<and> terminated q = terminated p"
  by (auto simp: local_pop_front_def split: prod.splits)

lemma global_try_pop_keeps:
  "global_try_pop p = (r, q) \<Longrightarrow> workers q = workers p \<and> terminated q = terminated p"
  by (auto simp: global_try_pop_def split: prod.splits)

lemma global_wait_pop_keeps:
  "global_wait_pop p = Some (r, q) \<Longrightarrow> workers q = workers p \<and> terminated q = terminated p"
  by (auto simp: global_wait_pop_def split: prod.splits option.splits)

lemma fetch_schedule:
  assumes w: "w < length (workers p)" and nt: "\<not> terminated p" and oth: "others_free w p"
  shows "case fetch w p of
      None \<Rightarrow> \<exists>es q. set es \<subseteq> {Work w} \<and> run es (placed w At_pop_front p) = Some q \<and>
                step (Work w) q = None
    | Some (None, p') \<Rightarrow>
        workers p' = workers p \<and> \<not> terminated p' \<and>
        (\<exists>es. set es \<subseteq> {Work w} \<and>
           run es (placed w At_pop_front p) = Some (placed w At_stop_check p'))
    | Some (Some t, p') \<Rightarrow>
        workers p' = workers p \<and> \<not> terminated p' \<and>
        (\<exists>es. set es \<subseteq> {Work w} \<and>
           run es (placed w At_pop_front p) = Some (placed w (At_inc_active t) p'))"
proof -
  obtain r1 p1 where l: "local_pop_front w p = (r1, p1)"
    by (cases "local_pop_front w p")
  note k1 = local_pop_front_keeps [OF l]
  have w1: "w < length (workers p1)" "\<not> terminated p1" "others_free w p1"
    using k1 w nt oth by (simp_all add: others_free_def)
  show ?thesis
  proof (cases r1)
    case (Some t)
    have "action At_pop_front w p = Some (At_inc_active t, p1)"
      using l Some by simp
    from schedule_step [OF w nt oth this _ schedule_done, of "{Work w}"]
    show ?thesis
      using l Some k1 nt by (simp add: fetch_def)
  next
    case None
    have a1: "action At_pop_front w p = Some (At_try_pop, p1)"
      using l None by simp
    obtain r2 p2 where g: "global_try_pop p1 = (r2, p2)"
      by (cases "global_try_pop p1")
    note k2 = global_try_pop_keeps [OF g]
    have w2: "w < length (workers p2)" "\<not> terminated p2" "others_free w p2"
      using k2 w1 by (simp_all add: others_free_def)
    show ?thesis
    proof (cases r2)
      case (Some t)
      have "action At_try_pop w p1 = Some (At_inc_active t, p2)"
        using g Some by simp
      from schedule_step [OF w1 this _ schedule_done, of "{Work w}"]
      have "\<exists>es. set es \<subseteq> {Work w} \<and> run es (placed w At_pop_front p) = Some (placed w (At_inc_active t) p2)"
        using schedule_step [OF w nt oth a1, of "{Work w}"] by blast
      then show ?thesis
        using l None g Some k1 k2 nt by (simp add: fetch_def)
    next
      case g_none: None
      have a2: "action At_try_pop w p1 = Some (At_steal 0, p2)"
        using g g_none by simp
      obtain r3 p3 where ts: "try_steal_loop 0 w p2 = (r3, p3)"
        by (cases "try_steal_loop 0 w p2")
      note k3 = try_steal_loop_keeps [OF ts]
      have w3: "w < length (workers p3)" "\<not> terminated p3" "others_free w p3"
        using k3 w2 by (simp_all add: others_free_def)
      have to_steal: "\<exists>es. set es \<subseteq> {Work w} \<and> run es (placed w At_pop_front p) = Some (placed w (At_steal 0) p2)"
        using schedule_step [OF w nt oth a1 _ schedule_step [OF w1 a2 _ schedule_done], of "{Work w}"]
        by simp
      have loop: "\<exists>es. set es \<subseteq> {Work w} \<and> run es (placed w (At_steal 0) p2) =
          Some (case r3 of None \<Rightarrow> placed w At_wait_pop p3 | Some t \<Rightarrow> placed w (At_inc_active t) p3)"
        using steal_loop_schedule [OF w2, of 0] by (simp add: ts)
      have f: "fetch w p = (case r3 of Some t \<Rightarrow> Some (Some t, p3) | None \<Rightarrow> global_wait_pop p3)"
        using l None g g_none ts by (simp add: fetch_def try_steal_def)
      show ?thesis
      proof (cases r3)
        case (Some t)
        then show ?thesis
          using schedule_trans [OF to_steal loop] f k1 k2 k3 nt by simp
      next
        case s_none: None
        have wait: "\<exists>es. set es \<subseteq> {Work w} \<and> run es (placed w At_pop_front p) = Some (placed w At_wait_pop p3)"
          using schedule_trans [OF to_steal loop] s_none by simp
        show ?thesis
        proof (cases "global_wait_pop p3")
          case None
          let ?q = "p3\<lparr>cv_waiters := w # cv_waiters p3\<rparr>"
          have a4: "action At_wait_pop w p3 = Some (At_wait_block, p3)"
            using None by simp
          have a5: "action At_wait_block w p3 = Some (At_wait_asleep, ?q)"
            by simp
          have w4: "w < length (workers ?q)" "\<not> terminated ?q" "others_free w ?q"
            using w3 by (simp_all add: others_free_def)
          have "\<exists>es. set es \<subseteq> {Work w} \<and> run es (placed w At_wait_pop p3) =
              Some (placed w At_wait_asleep ?q)"
            using schedule_step [OF w3 a4 _ schedule_step [OF w3 a5 _ schedule_done], of "{Work w}"]
            by simp
          from schedule_trans [OF wait this]
          have asleep: "\<exists>es. set es \<subseteq> {Work w} \<and> run es (placed w At_pop_front p) =
              Some (placed w At_wait_asleep ?q)" .
          have "action At_wait_asleep w ?q = None"
            by simp
          then have "step (Work w) (placed w At_wait_asleep ?q) = None"
            using step_placed_eq [OF w4, of At_wait_asleep] by simp
          then show ?thesis
            using asleep f s_none None by auto
        next
          case (Some x)
          obtain r4 p4 where x: "x = (r4, p4)"
            by (cases x)
          note k4 = global_wait_pop_keeps [OF Some [unfolded x]]
          have a4: "action At_wait_pop w p3 =
              Some (case r4 of None \<Rightarrow> At_stop_check | Some t \<Rightarrow> At_inc_active t, p4)"
            using Some x by (cases r4) simp_all
          have "\<exists>es. set es \<subseteq> {Work w} \<and> run es (placed w At_wait_pop p3) =
              Some (placed w (case r4 of None \<Rightarrow> At_stop_check | Some t \<Rightarrow> At_inc_active t) p4)"
            using schedule_step [OF w3 a4 _ schedule_done] by simp
          from schedule_trans [OF wait this] show ?thesis
            using f s_none Some x k1 k2 k3 k4 nt by (cases r4) simp_all
        qed
      qed
    qed
  qed
qed


lemma schedule_mono:
  "\<exists>es. set es \<subseteq> S \<and> run es p = Some q \<Longrightarrow> S \<subseteq> T \<Longrightarrow> \<exists>es. set es \<subseteq> T \<and> run es p = Some q"
  by blast

lemma execute_keeps_workers: "execute t d p = Some q \<Longrightarrow> workers q = workers p"
  by (auto simp: execute_def Let_def split: sum.splits)

lemma placed_same: "workers p ! w = pc \<Longrightarrow> placed w pc p = p"
  using list_update_id [of "workers p" w] by (simp add: placed_def)

lemma iteration_schedule:
  assumes w: "w < length (workers p)" and nt: "\<not> terminated p" and oth: "others_free w p"
    and at: "workers p ! w = At_pop_front"
  shows "case worker_iteration w d p of
      Continue p' \<Rightarrow> \<exists>es. set es \<subseteq> {Work w, Tick d} \<and> run es p = Some p'
    | Break p' \<Rightarrow> \<exists>es. set es \<subseteq> {Work w, Tick d} \<and> run es p = Some (placed w Exited p')
    | Blocks \<Rightarrow> \<exists>es q. set es \<subseteq> {Work w, Tick d} \<and> run es p = Some q \<and> step (Work w) q = None
    | Terminate \<Rightarrow> True"
proof -
  have p: "placed w At_pop_front p = p"
    using at by (rule placed_same)
  note fs = fetch_schedule [OF w nt oth, unfolded p]
  show ?thesis
  proof (cases "fetch w p")
    case None
    then obtain es q where "set es \<subseteq> {Work w}" "run es p = Some q" "step (Work w) q = None"
      using fs by auto
    then have "\<exists>es q. set es \<subseteq> {Work w, Tick d} \<and> run es p = Some q \<and> step (Work w) q = None"
      by blast
    then show ?thesis
      using None by (simp add: worker_iteration_def)
  next
    case (Some x)
    obtain r p1 where x: "x = (r, p1)"
      by (cases x)
    show ?thesis
    proof (cases r)
      case None
      with Some x fs have k: "workers p1 = workers p" "\<not> terminated p1"
        and sc: "\<exists>es. set es \<subseteq> {Work w} \<and> run es p = Some (placed w At_stop_check p1)"
        by simp_all
      have w1: "w < length (workers p1)"
        using k w by simp
      have o1: "others_free w p1"
        using k oth by (simp add: others_free_def)
      have a: "action At_stop_check w p1 = Some (if stop p1 then Exited else At_pop_front, p1)"
        by simp
      have "\<exists>es. set es \<subseteq> {Work w} \<and> run es (placed w At_stop_check p1) =
          Some (placed w (if stop p1 then Exited else At_pop_front) p1)"
        using schedule_step [OF w1 k(2) o1 a _ schedule_done] by simp
      from schedule_mono [OF schedule_trans [OF sc this], of "{Work w, Tick d}"]
      have "\<exists>es. set es \<subseteq> {Work w, Tick d} \<and>
          run es p = Some (placed w (if stop p1 then Exited else At_pop_front) p1)"
        by simp
      moreover have "placed w At_pop_front p1 = p1"
        using k(1) at by (intro placed_same) simp
      ultimately show ?thesis
        using Some x None by (cases "stop p1") (simp_all add: worker_iteration_def)
    next
      case (Some t)
      with \<open>fetch w p = Some x\<close> x fs have k: "workers p1 = workers p" "\<not> terminated p1"
        and sc: "\<exists>es. set es \<subseteq> {Work w} \<and> run es p = Some (placed w (At_inc_active t) p1)"
        by simp_all
      have w1: "w < length (workers p1)"
        using k w by simp
      have o1: "others_free w p1"
        using k oth by (simp add: others_free_def)
      show ?thesis
      proof (cases "execute t d p1")
        case None
        then show ?thesis
          using \<open>fetch w p = Some x\<close> x Some by (simp add: worker_iteration_def)
      next
        case ex: (Some p2)
        let ?es = "[Work w, Work w, Work w, Tick d, Work w, Work w, Work w, Work w, Work w, Work w]"
        have "placed w At_pop_front p2 = p2"
          using execute_keeps_workers [OF ex] k(1) at by (intro placed_same) simp
        then have "run ?es (placed w (At_inc_active t) p1) = Some p2"
          using execute_schedule [OF w1 k(2) o1, of d t] ex by simp
        moreover have "set ?es \<subseteq> {Work w, Tick d}"
          by simp
        ultimately have "\<exists>es. set es \<subseteq> {Work w, Tick d} \<and>
            run es (placed w (At_inc_active t) p1) = Some p2"
          by blast
        from schedule_trans [OF schedule_mono [OF sc, of "{Work w, Tick d}"] this]
        have "\<exists>es. set es \<subseteq> {Work w, Tick d} \<and> run es p = Some p2"
          by simp
        then show ?thesis
          using \<open>fetch w p = Some x\<close> x Some ex by (simp add: worker_iteration_def)
      qed
    qed
  qed
qed

section \<open>Repeated shutdown and the joins of the destructor\<close>

text \<open>
  \<^verbatim>\<open>shutdown\<close> stores the flag and notifies without the queue mutex, so both can happen
  between a worker's test of the predicate of line 105 and the moment it blocks in
  \<^verbatim>\<open>cv_.wait\<close>. The notification then finds nobody to wake up, and the worker goes to sleep
  on a pool that is already stopped.
\<close>

lemma shutdown_stopped:
  "stop p \<Longrightarrow> cv_waiters p = [] \<Longrightarrow> shutdown p = p"
  by (simp add: shutdown_def notify_all_def)

lemma action_keeps_waiters:
  "action ws v p = Some (pc, q) \<Longrightarrow> w \<in> set (cv_waiters p) \<Longrightarrow> w \<in> set (cv_waiters q)"
  by (cases ws)
     (auto simp: local_pop_front_def global_try_pop_def local_steal_def global_wait_pop_def Let_def
       split: option.splits prod.splits sum.splits if_splits)

lemma sleeper_step:
  assumes st: "step e p = Some q" and e: "e \<in> range Work \<union> range Tick"
    and w: "w < length (workers p)" and at: "workers p ! w = At_wait_asleep"
    and cv: "w \<in> set (cv_waiters p)"
  shows "w < length (workers q) \<and> workers q ! w = At_wait_asleep \<and> w \<in> set (cv_waiters q)"
proof -
  from e consider (work) v where "e = Work v" | (tick) d where "e = Tick d"
    by auto
  then show ?thesis
  proof cases
    case tick
    then have "q = p\<lparr>clock := clock p + d\<rparr>"
      using st by (simp add: step_def split: if_splits)
    then show ?thesis
      using w at cv by simp
  next
    case work
    then have ws: "worker_step v p = Some q"
      using st by (simp add: step_def split: if_splits)
    then have v: "v < length (workers p)"
      by (simp add: worker_step_def split: if_splits)
    from ws v obtain pc p' where a: "action (workers p ! v) v p = Some (pc, p')"
      and q: "q = p'\<lparr>workers := (workers p')[v := pc]\<rparr>"
      by (auto simp: worker_step_def split: option.splits)
    have "v \<noteq> w"
      using a at cv by auto
    moreover have "workers p' = workers p"
      using a by (rule action_keeps_workers)
    moreover have "w \<in> set (cv_waiters p')"
      using a cv by (rule action_keeps_waiters)
    ultimately show ?thesis
      using w at by (simp add: q)
  qed
qed

lemma sleeper_stays:
  "run es p = Some q \<Longrightarrow> set es \<subseteq> range Work \<union> range Tick \<Longrightarrow>
   w < length (workers p) \<Longrightarrow> workers p ! w = At_wait_asleep \<Longrightarrow> w \<in> set (cv_waiters p) \<Longrightarrow>
   w < length (workers q) \<and> workers q ! w = At_wait_asleep \<and> w \<in> set (cv_waiters q)"
proof (induction es arbitrary: p)
  case Nil
  then show ?case
    by simp
next
  case (Cons e es)
  from Cons.prems(1) obtain p' where st: "step e p = Some p'" and r: "run es p' = Some q"
    by (auto split: option.splits)
  have e: "e \<in> range Work \<union> range Tick" and es: "set es \<subseteq> range Work \<union> range Tick"
    using Cons.prems(2) by simp_all
  from sleeper_step [OF st e Cons.prems(3,4,5)]
  show ?case
    using Cons.IH [OF r es] by simp
qed

lemma sleeper_blocks_joins:
  "w < length (workers q) \<Longrightarrow> workers q ! w = At_wait_asleep \<Longrightarrow> \<not> joins_return q"
  by (auto simp: joins_return_def list_all_length)

text \<open>
  Claim C10 (shutdown is idempotent, so the destructor's call of shutdown followed by
  joining every worker is safe) does not hold of the code. In a pool of one worker, let the
  idle worker go through lines 387, 391 and \<^verbatim>\<open>try_steal\<close> and test the predicate of
  \<^verbatim>\<open>wait_pop\<close> (five steps), let \<^verbatim>\<open>shutdown\<close> run, as the destructor calls it, and let the
  worker block. The pool is then stopped with its worker asleep on the condition variable:
  the worker cannot step, and whatever the workers and the clock do from here on, the
  joins of the destructor do not return. A second call of \<^verbatim>\<open>shutdown\<close> is not without
  effect on this pool: it changes the state of the condition variable, and after it the
  worker leaves its loop in three steps, so that the joins return.
\<close>

theorem shutdown_wakeup_can_be_lost:
  "let q = (ThreadPool 1)\<lparr>stop := True, workers := [At_wait_asleep], cv_waiters := [0]\<rparr> in
     run [Work 0, Work 0, Work 0, Work 0, Work 0, Shutdown, Work 0] (ThreadPool 1) = Some q \<and>
     step (Work 0) q = None \<and>
     \<not> joins_return q \<and>
     (\<forall>es r. set es \<subseteq> range Work \<union> range Tick \<longrightarrow> run es q = Some r \<longrightarrow> \<not> joins_return r) \<and>
     shutdown q = q\<lparr>cv_waiters := []\<rparr> \<and>
     shutdown q \<noteq> q \<and>
     run [Shutdown, Work 0, Work 0, Work 0] q = Some (q\<lparr>cv_waiters := [], workers := [Exited]\<rparr>) \<and>
     joins_return (q\<lparr>cv_waiters := [], workers := [Exited]\<rparr>)"
proof -
  let ?q = "(ThreadPool 1)\<lparr>stop := True, workers := [At_wait_asleep], cv_waiters := [0]\<rparr>"
  have c1: "run [Work 0, Work 0, Work 0, Work 0, Work 0, Shutdown, Work 0] (ThreadPool 1) = Some ?q"
    by code_simp
  have c2: "step (Work 0) ?q = None"
    by code_simp
  have c3: "\<not> joins_return ?q"
    by code_simp
  have c4: "\<not> joins_return r" if "set es \<subseteq> range Work \<union> range Tick" "run es ?q = Some r" for es r
  proof -
    have "0 < length (workers ?q)" "workers ?q ! 0 = At_wait_asleep" "0 \<in> set (cv_waiters ?q)"
      by simp_all
    from sleeper_stays [OF that(2,1) this] show ?thesis
      using sleeper_blocks_joins by blast
  qed
  have c5: "shutdown ?q = ?q\<lparr>cv_waiters := []\<rparr>"
    by code_simp
  have c6: "shutdown ?q \<noteq> ?q"
    by code_simp
  have c7: "run [Shutdown, Work 0, Work 0, Work 0] ?q = Some (?q\<lparr>cv_waiters := [], workers := [Exited]\<rparr>)"
    by code_simp
  have c8: "joins_return (?q\<lparr>cv_waiters := [], workers := [Exited]\<rparr>)"
    by code_simp
  from c1 c2 c3 c4 c5 c6 c7 c8 show ?thesis
    unfolding Let_def by blast
qed

theorem shutdown_wakeup_can_be_lost_witness:
  "set [Tick 7, Tick 1] \<subseteq> range Work \<union> range Tick \<and>
   run [Tick 7, Tick 1]
       ((ThreadPool 1)\<lparr>stop := True, workers := [At_wait_asleep], cv_waiters := [0]\<rparr>) =
     Some ((ThreadPool 1)\<lparr>stop := True, workers := [At_wait_asleep], cv_waiters := [0], clock := 8\<rparr>) \<and>
   \<not> joins_return
       ((ThreadPool 1)\<lparr>stop := True, workers := [At_wait_asleep], cv_waiters := [0], clock := 8\<rparr>)"
proof -
  let ?q = "(ThreadPool 1)\<lparr>stop := True, workers := [At_wait_asleep], cv_waiters := [0]\<rparr>"
  have s: "set [Tick 7, Tick 1] \<subseteq> range Work \<union> range Tick"
    by simp
  have r: "run [Tick 7, Tick 1] ?q = Some (?q\<lparr>clock := 8\<rparr>)"
    by code_simp
  have "\<not> joins_return (?q\<lparr>clock := 8\<rparr>)"
    using shutdown_wakeup_can_be_lost s r unfolding Let_def by blast
  with s r show ?thesis
    by simp
qed

end
